theory Spec2Isabelle
  imports Complex_Main "HOL-Library.Multiset" "HOL-Library.Log_Nat"
begin

section \<open>Data model\<close>

text \<open>
  The interfaces of the extended component. A JavaScript \<open>number\<close> that is used as an
  ordinal or as an array index is an \<open>int\<close>; an optional field is an \<open>option\<close>.
  The field \<open>image\<close> of the source is \<open>image_opt\<close> here.
\<close>

record Question =
  questionNumber :: int
  questionText :: string
  options :: "string list"
  correctAnswer :: string
  image_opt :: "string option"

record Quiz =
  quiz :: string
  topic :: string
  questions :: "Question list"

record QuizData =
  course :: string
  description :: string
  quizzes :: "Quiz list"

record UserAnswer =
  questionIndex :: int
  selectedAnswer :: string
  isCorrect :: "bool option"

record QuizSettings =
  shuffleQuestions :: bool
  shuffleAnswers :: bool
  restartOnIncorrect :: bool

section \<open>The master quiz\<close>

text \<open>
  \<open>createAllQuestionsQuiz\<close>: two nested \<open>forEach\<close> loops over the catalog that push a
  renumbered copy of every question and post-increment \<open>questionCounter\<close>. The loop state
  is the pair of \<open>allQuestions\<close> and \<open>questionCounter\<close>.
\<close>

fun forEachQuestion :: "Question list \<Rightarrow> Question list \<times> int \<Rightarrow> Question list \<times> int" where
  "forEachQuestion [] st = st"
| "forEachQuestion (question # rest) (allQuestions, questionCounter) =
     forEachQuestion rest
       (allQuestions @ [question\<lparr>questionNumber := questionCounter\<rparr>], questionCounter + 1)"

fun forEachQuiz :: "Quiz list \<Rightarrow> Question list \<times> int \<Rightarrow> Question list \<times> int" where
  "forEachQuiz [] st = st"
| "forEachQuiz (qz # rest) st = forEachQuiz rest (forEachQuestion (questions qz) st)"

definition createAllQuestionsQuiz :: "QuizData \<Rightarrow> Quiz" where
  "createAllQuestionsQuiz quizData =
     (let (allQuestions, questionCounter) = forEachQuiz (quizzes quizData) ([], 1)
      in \<lparr>quiz = ''Master Challenge'', topic = ''All Topics Combined'',
          questions = allQuestions\<rparr>)"

section \<open>Double-precision arithmetic\<close>

text \<open>
  A finite JavaScript number is a rational. \<open>binary64\<close> rounds a rational to the nearest
  number with a 53-bit significand, ties to even, which is what every arithmetic operation
  of the source does to its exact result: the operands here are array lengths, clock
  differences and the constants 100 and 1000, so no result leaves the normal range of the
  format. \<open>binaryExponent x\<close> is the \<open>e\<close> with \<open>2^e \<le> |x| < 2^(e+1)\<close>.
\<close>

definition roundTiesToEven :: "rat \<Rightarrow> int" where
  "roundTiesToEven y =
     (let f = \<lfloor>y\<rfloor>; d = y - of_int f
      in if d < 1 / 2 then f else if 1 / 2 < d then f + 1 else if even f then f else f + 1)"

definition binaryExponent :: "rat \<Rightarrow> int" where
  "binaryExponent x =
     (let (a, b) = quotient_of \<bar>x\<bar>; e0 = bitlen a - bitlen b
      in if \<bar>x\<bar> < 2 powi e0 then e0 - 1 else e0)"

definition binary64 :: "rat \<Rightarrow> rat" where
  "binary64 x =
     (if x = 0 then 0
      else (let u = 2 powi (binaryExponent x - 52)
            in of_int (roundTiesToEven (x / u)) * u))"

definition fdiv :: "rat \<Rightarrow> rat \<Rightarrow> rat" where
  "fdiv a b = binary64 (a / b)"

definition fmul :: "rat \<Rightarrow> rat \<Rightarrow> rat" where
  "fmul a b = binary64 (a * b)"

definition fsub :: "rat \<Rightarrow> rat \<Rightarrow> rat" where
  "fsub a b = binary64 (a - b)"

text \<open>\<open>Math.round\<close> is the nearest integer, a tie going up; \<open>Math.floor\<close> is the floor.\<close>

definition Math_round :: "rat \<Rightarrow> int" where
  "Math_round x = \<lfloor>x + 1 / 2\<rfloor>"

definition Math_floor :: "rat \<Rightarrow> int" where
  "Math_floor x = \<lfloor>x\<rfloor>"

section \<open>Shuffling\<close>

text \<open>
  The random source is the sequence of values that the successive calls of
  \<open>Math.random()\<close> return; a call takes the head and leaves the tail. \<open>Math.random()\<close>
  returns a double in \<open>[0, 1)\<close>, and the largest of them is \<open>1 - 2^-53\<close>, which
  \<open>validRandom\<close> says of every value of a source.
\<close>

type_synonym random_source = "nat \<Rightarrow> rat"

definition Math_random :: "random_source \<Rightarrow> rat \<times> random_source" where
  "Math_random g = (g 0, \<lambda>n. g (Suc n))"

definition validRandom :: "random_source \<Rightarrow> bool" where
  "validRandom g = (\<forall>n. 0 \<le> g n \<and> g n \<le> 1 - 1 / 2 ^ 53)"

text \<open>
  The destructuring swap \<open>[a[i], a[j]] = [a[j], a[i]]\<close> reads both cells, then writes
  cell \<open>i\<close>, then cell \<open>j\<close>.
\<close>

definition swap :: "'a list \<Rightarrow> nat \<Rightarrow> nat \<Rightarrow> 'a list" where
  "swap a i j = (let aj = a ! j; ai = a ! i in (a[i := aj])[j := ai])"

text \<open>\<open>Math.floor(Math.random() * (i + 1))\<close>, for the value \<open>r\<close> of \<open>Math.random()\<close>.\<close>

definition randomIndex :: "rat \<Rightarrow> nat \<Rightarrow> nat" where
  "randomIndex r i = nat (Math_floor (fmul r (of_nat (i + 1))))"

text \<open>
  The loop \<open>for (let i = shuffled.length - 1; i > 0; i--)\<close> of \<open>shuffleArray\<close>, by
  recursion on \<open>i\<close>: it stops at \<open>i = 0\<close> (and is not entered for an empty array, where
  \<open>length - 1\<close> is not positive either).
\<close>

fun shuffleLoop :: "nat \<Rightarrow> 'a list \<Rightarrow> random_source \<Rightarrow> 'a list \<times> random_source" where
  "shuffleLoop 0 shuffled g = (shuffled, g)"
| "shuffleLoop (Suc k) shuffled g =
     (let i = Suc k;
          (r, g') = Math_random g;
          j = randomIndex r i
      in shuffleLoop k (swap shuffled i j) g')"

definition shuffleArray :: "'a list \<Rightarrow> random_source \<Rightarrow> 'a list \<times> random_source" where
  "shuffleArray array g = shuffleLoop (length array - 1) array g"

text \<open>
  \<open>processQuizWithSettings\<close>. The first \<open>map\<close> renumbers by position; the second one
  calls \<open>shuffleArray\<close> once per question, in order, so it threads the random source.
\<close>

definition renumber :: "Question list \<Rightarrow> Question list" where
  "renumber qs = map (\<lambda>(idx, q). q\<lparr>questionNumber := int idx + 1\<rparr>) (enumerate 0 qs)"

fun mapShuffleOptions :: "Question list \<Rightarrow> random_source \<Rightarrow> Question list \<times> random_source" where
  "mapShuffleOptions [] g = ([], g)"
| "mapShuffleOptions (question # rest) g =
     (let (shuffledOptions, g') = shuffleArray (options question) g;
          (rest', g'') = mapShuffleOptions rest g'
      in (question\<lparr>options := shuffledOptions\<rparr> # rest', g''))"

definition processQuizWithSettings ::
    "Quiz \<Rightarrow> QuizSettings \<Rightarrow> random_source \<Rightarrow> Quiz \<times> random_source" where
  "processQuizWithSettings qz settings g =
     (let processedQuestions = questions qz;
          (processedQuestions, g) =
            (if shuffleQuestions settings
             then (let (shuffled, g') = shuffleArray processedQuestions g
                   in (renumber shuffled, g'))
             else (processedQuestions, g));
          (processedQuestions, g) =
            (if shuffleAnswers settings
             then mapShuffleOptions processedQuestions g
             else (processedQuestions, g))
      in (qz\<lparr>questions := processedQuestions\<rparr>, g))"

section \<open>The store\<close>

text \<open>
  Arrays and objects are mutable and shared by reference; whether \<open>processQuizWithSettings\<close>
  changes the quiz it is given depends on which of them it writes. The store holds the
  arrays of strings, the arrays of \<open>Question\<close> references, the \<open>Question\<close> objects and the
  \<open>Quiz\<close> objects; a reference is a position in its list, and a new array or object goes
  to the end. In the store the \<open>options\<close> of a question and the \<open>questions\<close> of a quiz
  are references.
\<close>

type_synonym ref = nat

record QuestionObject =
  objQuestionNumber :: int
  objQuestionText :: string
  objOptions :: ref
  objCorrectAnswer :: string
  objImage :: "string option"

record QuizObject =
  objQuiz :: string
  objTopic :: string
  objQuestions :: ref

record Store =
  stringArrays :: "string list list"
  questionArrays :: "ref list list"
  questionObjects :: "QuestionObject list"
  quizObjects :: "QuizObject list"

text \<open>
  The spread \<open>[...array]\<close> allocates a copy. \<open>shuffleArray\<close> copies its argument and then
  swaps cells of the copy in place.
\<close>

definition copyArray :: "'a list list \<Rightarrow> ref \<Rightarrow> ref \<times> 'a list list" where
  "copyArray h array = (length h, h @ [h ! array])"

fun shuffleLoopH ::
    "nat \<Rightarrow> ref \<Rightarrow> 'a list list \<Rightarrow> random_source \<Rightarrow> 'a list list \<times> random_source" where
  "shuffleLoopH 0 shuffled h g = (h, g)"
| "shuffleLoopH (Suc k) shuffled h g =
     (let i = Suc k;
          (r, g') = Math_random g;
          j = randomIndex r i
      in shuffleLoopH k shuffled (h[shuffled := swap (h ! shuffled) i j]) g')"

definition shuffleArrayH ::
    "'a list list \<Rightarrow> ref \<Rightarrow> random_source \<Rightarrow> (ref \<times> 'a list list) \<times> random_source" where
  "shuffleArrayH h array g =
     (let (shuffled, h1) = copyArray h array;
          (h2, g') = shuffleLoopH (length (h1 ! shuffled) - 1) shuffled h1 g
      in ((shuffled, h2), g'))"

text \<open>
  The callbacks of the two \<open>map\<close> calls allocate a new object per element,
  \<open>{...q, questionNumber: idx + 1}\<close> and \<open>{...question, options: shuffledOptions}\<close>; the
  results go to a new array. \<open>shuffleQuestionsS\<close> and \<open>shuffleAnswersS\<close> are the bodies of
  the two \<open>if\<close> statements of \<open>processQuizWithSettings\<close>, which ends by allocating
  \<open>{...quiz, questions: processedQuestions}\<close>.
\<close>

fun mapRenumberS :: "ref list \<Rightarrow> nat \<Rightarrow> Store \<Rightarrow> ref list \<times> Store" where
  "mapRenumberS [] idx st = ([], st)"
| "mapRenumberS (q # rest) idx st =
     (let new = length (questionObjects st);
          st1 = st\<lparr>questionObjects :=
                    questionObjects st
                      @ [(questionObjects st ! q)\<lparr>objQuestionNumber := int idx + 1\<rparr>]\<rparr>;
          (rest', st2) = mapRenumberS rest (idx + 1) st1
      in (new # rest', st2))"

fun mapShuffleOptionsS ::
    "ref list \<Rightarrow> Store \<Rightarrow> random_source \<Rightarrow> (ref list \<times> Store) \<times> random_source" where
  "mapShuffleOptionsS [] st g = (([], st), g)"
| "mapShuffleOptionsS (question # rest) st g =
     (let qo = questionObjects st ! question;
          ((shuffledOptions, sa), g') = shuffleArrayH (stringArrays st) (objOptions qo) g;
          st1 = st\<lparr>stringArrays := sa\<rparr>;
          new = length (questionObjects st1);
          st2 = st1\<lparr>questionObjects :=
                      questionObjects st1 @ [qo\<lparr>objOptions := shuffledOptions\<rparr>]\<rparr>;
          ((rest', st3), g'') = mapShuffleOptionsS rest st2 g'
      in ((new # rest', st3), g''))"

definition allocQuestionArray :: "Store \<Rightarrow> ref list \<Rightarrow> ref \<times> Store" where
  "allocQuestionArray st elems =
     (length (questionArrays st), st\<lparr>questionArrays := questionArrays st @ [elems]\<rparr>)"

definition shuffleQuestionsS ::
    "Store \<Rightarrow> ref \<Rightarrow> random_source \<Rightarrow> (ref \<times> Store) \<times> random_source" where
  "shuffleQuestionsS st processedQuestions g =
     (let ((shuffled, qa), g') = shuffleArrayH (questionArrays st) processedQuestions g;
          st = st\<lparr>questionArrays := qa\<rparr>;
          (elems, st) = mapRenumberS (questionArrays st ! shuffled) 0 st
      in (allocQuestionArray st elems, g'))"

definition shuffleAnswersS ::
    "Store \<Rightarrow> ref \<Rightarrow> random_source \<Rightarrow> (ref \<times> Store) \<times> random_source" where
  "shuffleAnswersS st processedQuestions g =
     (let ((elems, st), g') = mapShuffleOptionsS (questionArrays st ! processedQuestions) st g
      in (allocQuestionArray st elems, g'))"

definition processQuizWithSettingsS ::
    "Store \<Rightarrow> ref \<Rightarrow> QuizSettings \<Rightarrow> random_source \<Rightarrow> (ref \<times> Store) \<times> random_source" where
  "processQuizWithSettingsS st quizRef settings g =
     (let quizObject = quizObjects st ! quizRef;
          (processedQuestions, qa) = copyArray (questionArrays st) (objQuestions quizObject);
          st = st\<lparr>questionArrays := qa\<rparr>;
          ((processedQuestions, st), g) =
            (if shuffleQuestions settings then shuffleQuestionsS st processedQuestions g
             else ((processedQuestions, st), g));
          ((processedQuestions, st), g) =
            (if shuffleAnswers settings then shuffleAnswersS st processedQuestions g
             else ((processedQuestions, st), g))
      in ((length (quizObjects st),
           st\<lparr>quizObjects :=
                 quizObjects st @ [quizObject\<lparr>objQuestions := processedQuestions\<rparr>]\<rparr>),
          g))"

section \<open>The session of the extended component\<close>

text \<open>
  The state of \<open>QuizApp\<close>: one field per \<open>useState\<close> cell that the session logic reads,
  and the random source. The catalog is loaded before any view is shown and is not
  changed afterwards. A \<open>Date\<close> is its \<open>getTime()\<close>, a whole number of milliseconds
  that a double holds exactly.
\<close>

datatype View = ViewHome | ViewSettings | ViewQuiz | ViewResults

record AppState =
  currentView :: View
  selectedQuiz :: "Quiz option"
  processedQuiz :: "Quiz option"
  currentQuestionIndex :: int
  userAnswers :: "UserAnswer list"
  startTime :: "int option"
  endTime :: "int option"
  quizSubmitted :: bool
  quizSettings :: QuizSettings
  randomSource :: random_source

definition initialState :: "random_source \<Rightarrow> AppState" where
  "initialState g =
     \<lparr>currentView = ViewHome, selectedQuiz = None, processedQuiz = None,
      currentQuestionIndex = 0, userAnswers = [], startTime = None, endTime = None,
      quizSubmitted = False,
      quizSettings = \<lparr>shuffleQuestions = False, shuffleAnswers = False,
                      restartOnIncorrect = False\<rparr>,
      randomSource = g\<rparr>"

text \<open>
  \<open>array[index]\<close> is \<open>undefined\<close> outside the array; reading a property of \<open>undefined\<close>
  throws a \<open>TypeError\<close>. \<open>findIndex\<close> returns the first position whose element
  satisfies the predicate, or \<open>-1\<close>.
\<close>

datatype error = TypeError

definition arrayGet :: "'a list \<Rightarrow> int \<Rightarrow> 'a option" where
  "arrayGet a index = (if 0 \<le> index \<and> index < int (length a) then Some (a ! nat index) else None)"

fun findIndex :: "('a \<Rightarrow> bool) \<Rightarrow> 'a list \<Rightarrow> int" where
  "findIndex P [] = - 1"
| "findIndex P (x # xs) =
     (if P x then 0 else (let r = findIndex P xs in if r = - 1 then - 1 else r + 1))"

definition selectQuiz :: "AppState \<Rightarrow> Quiz \<Rightarrow> AppState" where
  "selectQuiz s qz = s\<lparr>selectedQuiz := Some qz, currentView := ViewSettings\<rparr>"

definition startQuiz :: "AppState \<Rightarrow> int \<Rightarrow> AppState" where
  "startQuiz s now =
     (case selectedQuiz s of
        None \<Rightarrow> s
      | Some qz \<Rightarrow>
          (let (quizToUse, g') = processQuizWithSettings qz (quizSettings s) (randomSource s)
           in s\<lparr>processedQuiz := Some quizToUse, currentQuestionIndex := 0,
                userAnswers := [], startTime := Some now, endTime := None,
                quizSubmitted := False, currentView := ViewQuiz, randomSource := g'\<rparr>))"

definition handleAnswerSelect :: "AppState \<Rightarrow> string \<Rightarrow> AppState" where
  "handleAnswerSelect s answer =
     (case processedQuiz s of
        None \<Rightarrow> s
      | Some pq \<Rightarrow>
          (let existingAnswerIndex =
                 findIndex (\<lambda>ans. questionIndex ans = currentQuestionIndex s) (userAnswers s);
               newAnswer = \<lparr>questionIndex = currentQuestionIndex s, selectedAnswer = answer,
                            isCorrect = None\<rparr>
           in if existingAnswerIndex \<noteq> - 1
              then s\<lparr>userAnswers := (userAnswers s)[nat existingAnswerIndex := newAnswer]\<rparr>
              else s\<lparr>userAnswers := userAnswers s @ [newAnswer]\<rparr>))"

definition navigateToQuestion :: "AppState \<Rightarrow> int \<Rightarrow> AppState" where
  "navigateToQuestion s index =
     (case processedQuiz s of
        None \<Rightarrow> s
      | Some pq \<Rightarrow>
          if 0 \<le> index \<and> index < int (length (questions pq))
          then s\<lparr>currentQuestionIndex := index\<rparr>
          else s)"

text \<open>
  \<open>submitQuiz\<close> maps over the answers; the callback reads
  \<open>processedQuiz.questions[answer.questionIndex].correctAnswer\<close>, which throws when the
  index is outside the question list, before any state is set.
\<close>

definition markAnswer :: "Quiz \<Rightarrow> UserAnswer \<Rightarrow> error + UserAnswer" where
  "markAnswer pq answer =
     (case arrayGet (questions pq) (questionIndex answer) of
        None \<Rightarrow> Inl TypeError
      | Some q \<Rightarrow> Inr (answer\<lparr>isCorrect := Some (selectedAnswer answer = correctAnswer q)\<rparr>))"

fun mapThrowing :: "('a \<Rightarrow> error + 'b) \<Rightarrow> 'a list \<Rightarrow> error + 'b list" where
  "mapThrowing f [] = Inr []"
| "mapThrowing f (x # xs) =
     (case f x of
        Inl e \<Rightarrow> Inl e
      | Inr y \<Rightarrow> (case mapThrowing f xs of Inl e \<Rightarrow> Inl e | Inr ys \<Rightarrow> Inr (y # ys)))"

definition submitQuiz :: "AppState \<Rightarrow> int \<Rightarrow> error + AppState" where
  "submitQuiz s now =
     (case processedQuiz s of
        None \<Rightarrow> Inr s
      | Some pq \<Rightarrow>
          (case mapThrowing (markAnswer pq) (userAnswers s) of
             Inl e \<Rightarrow> Inl e
           | Inr answersWithResults \<Rightarrow>
               Inr (s\<lparr>userAnswers := answersWithResults, endTime := Some now,
                      quizSubmitted := True, currentView := ViewResults\<rparr>)))"

definition resetQuiz :: "AppState \<Rightarrow> AppState" where
  "resetQuiz s =
     s\<lparr>currentView := ViewHome, selectedQuiz := None, processedQuiz := None,
       currentQuestionIndex := 0, userAnswers := [], startTime := None, endTime := None,
       quizSubmitted := False\<rparr>"

definition restartQuiz :: "AppState \<Rightarrow> int \<Rightarrow> AppState" where
  "restartQuiz s now =
     (case selectedQuiz s of
        None \<Rightarrow> s
      | Some qz \<Rightarrow>
          (let (quizToUse, g') = processQuizWithSettings qz (quizSettings s) (randomSource s)
           in s\<lparr>processedQuiz := Some quizToUse, currentQuestionIndex := 0,
                userAnswers := [], startTime := Some now, endTime := None,
                quizSubmitted := False, currentView := ViewQuiz, randomSource := g'\<rparr>))"

text \<open>
  \<open>calculateResults\<close>. The counts are array lengths; the percentage and the duration
  are computed in double precision (the quotient and the product of the percentage, the
  difference of the two times and its quotient by 1000) and rounded by \<open>Math.round\<close>. A
  missing \<open>isCorrect\<close> is falsy.
\<close>

record QuizResults =
  correctAnswers :: nat
  totalQuestions :: nat
  answeredQuestions :: nat
  percentage :: int
  duration :: int

definition calculateResults :: "AppState \<Rightarrow> QuizResults" where
  "calculateResults s =
     (case processedQuiz s of
        None \<Rightarrow> \<lparr>correctAnswers = 0, totalQuestions = 0, answeredQuestions = 0,
                 percentage = 0, duration = 0\<rparr>
      | Some pq \<Rightarrow>
          (let correct = length (filter (\<lambda>answer. isCorrect answer = Some True) (userAnswers s));
               total = length (questions pq);
               answered = length (userAnswers s)
           in \<lparr>correctAnswers = correct, totalQuestions = total, answeredQuestions = answered,
               percentage =
                 (if total > 0 then Math_round (fmul (fdiv (of_nat correct) (of_nat total)) 100)
                  else 0),
               duration =
                 (case (startTime s, endTime s) of
                    (Some st, Some en) \<Rightarrow> Math_round (fdiv (fsub (of_int en) (of_int st)) 1000)
                  | _ \<Rightarrow> 0)\<rparr>))"

text \<open>
  \<open>SettingsView.toggleSetting\<close> negates one setting. \<open>QuizView.handleAnswerSelect\<close>
  closes over \<open>currentQuestion = quiz.questions[currentQuestionIndex]\<close> of the render
  that mounted the option buttons.
\<close>

datatype SettingKey = KeyShuffleQuestions | KeyShuffleAnswers | KeyRestartOnIncorrect

fun toggleSetting :: "QuizSettings \<Rightarrow> SettingKey \<Rightarrow> QuizSettings" where
  "toggleSetting settings KeyShuffleQuestions =
     settings\<lparr>shuffleQuestions := \<not> shuffleQuestions settings\<rparr>"
| "toggleSetting settings KeyShuffleAnswers =
     settings\<lparr>shuffleAnswers := \<not> shuffleAnswers settings\<rparr>"
| "toggleSetting settings KeyRestartOnIncorrect =
     settings\<lparr>restartOnIncorrect := \<not> restartOnIncorrect settings\<rparr>"

definition QuizView_handleAnswerSelect ::
    "AppState \<Rightarrow> Question \<Rightarrow> string \<Rightarrow> int \<Rightarrow> AppState" where
  "QuizView_handleAnswerSelect s currentQuestion answer now =
     (if restartOnIncorrect (quizSettings s) \<and> answer \<noteq> correctAnswer currentQuestion
      then restartQuiz s now
      else handleAnswerSelect s answer)"

text \<open>
  The user's actions. An action reaches its handler only through a control of the view
  that is mounted: \<open>HomeView\<close> in the home view; \<open>SettingsView\<close> in the settings view
  when a quiz is selected; \<open>QuizView\<close> in the quiz view when there is a processed quiz,
  and its render reads \<open>currentQuestion.questionText\<close>, so it mounts no control unless
  the current index is inside the question list; \<open>ResultsView\<close> in the results view
  when there is a processed quiz. An action with no control mounted leaves the state as
  it is. The integer of an action is the clock's reading when it happens. A handler that
  throws has set no state.
\<close>

datatype Event =
    SelectQuiz Quiz
  | ToggleSetting SettingKey
  | StartQuiz int
  | AnswerSelect string int
  | NavigateToQuestion int
  | SubmitQuiz int
  | GoHome
  | Restart int

definition quizViewQuestion :: "AppState \<Rightarrow> Question option" where
  "quizViewQuestion s =
     (if currentView s = ViewQuiz
      then (case processedQuiz s of
              None \<Rightarrow> None
            | Some pq \<Rightarrow> arrayGet (questions pq) (currentQuestionIndex s))
      else None)"

definition settingsViewMounted :: "AppState \<Rightarrow> bool" where
  "settingsViewMounted s = (currentView s = ViewSettings \<and> selectedQuiz s \<noteq> None)"

definition resultsViewMounted :: "AppState \<Rightarrow> bool" where
  "resultsViewMounted s = (currentView s = ViewResults \<and> processedQuiz s \<noteq> None)"

fun step :: "AppState \<Rightarrow> Event \<Rightarrow> AppState" where
  "step s (SelectQuiz qz) = (if currentView s = ViewHome then selectQuiz s qz else s)"
| "step s (ToggleSetting k) =
     (if settingsViewMounted s then s\<lparr>quizSettings := toggleSetting (quizSettings s) k\<rparr>
      else s)"
| "step s (StartQuiz now) = (if settingsViewMounted s then startQuiz s now else s)"
| "step s (AnswerSelect answer now) =
     (case quizViewQuestion s of
        None \<Rightarrow> s
      | Some currentQuestion \<Rightarrow> QuizView_handleAnswerSelect s currentQuestion answer now)"
| "step s (NavigateToQuestion index) =
     (case quizViewQuestion s of None \<Rightarrow> s | Some currentQuestion \<Rightarrow> navigateToQuestion s index)"
| "step s (SubmitQuiz now) =
     (case quizViewQuestion s of
        None \<Rightarrow> s
      | Some currentQuestion \<Rightarrow> (case submitQuiz s now of Inl e \<Rightarrow> s | Inr s' \<Rightarrow> s'))"
| "step s GoHome =
     (if settingsViewMounted s \<or> quizViewQuestion s \<noteq> None \<or> resultsViewMounted s
      then resetQuiz s else s)"
| "step s (Restart now) = (if resultsViewMounted s then restartQuiz s now else s)"

definition run :: "AppState \<Rightarrow> Event list \<Rightarrow> AppState" where
  "run s events = foldl step s events"

section \<open>The results of the basic component\<close>

text \<open>
  \<open>calculateResults\<close> of the basic component counts the recorded answers as the total and
  has no guard: with no answer the quotient is \<open>0 / 0\<close>, which is \<open>NaN\<close>, and so is the
  percentage (\<open>None\<close> here).
\<close>

record BasicUserAnswer =
  basicQuestionIndex :: int
  basicSelectedAnswer :: string
  basicIsCorrect :: bool

record BasicResults =
  basicCorrectAnswers :: nat
  basicTotalQuestions :: nat
  basicPercentage :: "int option"
  basicDuration :: int

definition calculateResultsBasic ::
    "BasicUserAnswer list \<Rightarrow> int option \<Rightarrow> int option \<Rightarrow> BasicResults" where
  "calculateResultsBasic answers start finish =
     (let correct = length (filter basicIsCorrect answers);
          total = length answers
      in \<lparr>basicCorrectAnswers = correct, basicTotalQuestions = total,
          basicPercentage =
            (if total = 0 then None
             else Some (Math_round (fmul (fdiv (of_nat correct) (of_nat total)) 100))),
          basicDuration =
            (case (start, finish) of
               (Some st, Some en) \<Rightarrow> Math_round (fdiv (fsub (of_int en) (of_int st)) 1000)
             | _ \<Rightarrow> 0)\<rparr>)"

section \<open>Auxiliary notions for the statements\<close>

text \<open>\<open>numberedFrom c qs\<close> numbers the questions \<open>c\<close>, \<open>c + 1\<close>, ... in their order.\<close>

fun numberedFrom :: "int \<Rightarrow> Question list \<Rightarrow> Question list" where
  "numberedFrom c [] = []"
| "numberedFrom c (q # qs) = q\<lparr>questionNumber := c\<rparr> # numberedFrom (c + 1) qs"

text \<open>
  \<open>upsertAnswer cur answer answers\<close> is the answer list that \<open>handleAnswerSelect\<close> sets
  when the current index is \<open>cur\<close>.
\<close>

definition upsertAnswer :: "int \<Rightarrow> string \<Rightarrow> UserAnswer list \<Rightarrow> UserAnswer list" where
  "upsertAnswer cur answer answers =
     (let k = findIndex (\<lambda>ans. questionIndex ans = cur) answers;
          new = \<lparr>questionIndex = cur, selectedAnswer = answer, isCorrect = None\<rparr>
      in if k \<noteq> - 1 then answers[nat k := new] else answers @ [new])"

text \<open>
  The invariant of the session. While a quiz is being taken or its results are shown, a
  quiz is selected and a processed quiz exists; the current index is inside its question
  list unless the list is empty; the recorded answers have distinct indices inside the
  list and, in challenge mode, each is the correct answer of its question. In the home
  and settings views there is no processed quiz and no answer. \<open>marked pq a\<close> is the
  answer \<open>a\<close> with the correctness that \<open>submitQuiz\<close> computes.
\<close>

definition answersInv :: "Quiz \<Rightarrow> QuizSettings \<Rightarrow> UserAnswer list \<Rightarrow> bool" where
  "answersInv pq settings answers =
     (distinct (map questionIndex answers)
    \<and> (\<forall>a \<in> set answers. 0 \<le> questionIndex a \<and> questionIndex a < int (length (questions pq)))
    \<and> (restartOnIncorrect settings \<longrightarrow>
         (\<forall>a \<in> set answers.
            selectedAnswer a = correctAnswer (questions pq ! nat (questionIndex a)))))"

definition indexInv :: "Quiz \<Rightarrow> int \<Rightarrow> bool" where
  "indexInv pq index =
     (questions pq \<noteq> [] \<longrightarrow> 0 \<le> index \<and> index < int (length (questions pq)))"

definition attemptInv :: "AppState \<Rightarrow> bool" where
  "attemptInv s =
     (selectedQuiz s \<noteq> None
    \<and> (\<exists>pq. processedQuiz s = Some pq
          \<and> indexInv pq (currentQuestionIndex s)
          \<and> answersInv pq (quizSettings s) (userAnswers s)
          \<and> (currentView s = ViewResults \<longrightarrow> questions pq \<noteq> [])))"

definition sessionInv :: "AppState \<Rightarrow> bool" where
  "sessionInv s =
     (if currentView s = ViewQuiz \<or> currentView s = ViewResults then attemptInv s
      else processedQuiz s = None \<and> userAnswers s = [])"

definition marked :: "Quiz \<Rightarrow> UserAnswer \<Rightarrow> UserAnswer" where
  "marked pq a =
     a\<lparr>isCorrect := Some (selectedAnswer a = correctAnswer (questions pq ! nat (questionIndex a)))\<rparr>"

text \<open>
  \<open>shuffledPositions n g\<close> lists the positions that a shuffle of an array of length
  \<open>n\<close> with the random source \<open>g\<close> brings to the places \<open>0, 1, ...\<close>.
  \<open>sameContent q' q\<close>: the two questions agree but for their number and the order of
  their options.
\<close>

definition shuffledPositions :: "nat \<Rightarrow> random_source \<Rightarrow> nat list" where
  "shuffledPositions n g = fst (shuffleArray [0..<n] g)"

definition sameContent :: "Question \<Rightarrow> Question \<Rightarrow> bool" where
  "sameContent q' q =
     (questionText q' = questionText q \<and> correctAnswer q' = correctAnswer q
    \<and> image_opt q' = image_opt q \<and> mset (options q') = mset (options q))"

text \<open>
  \<open>readQuestion\<close> and \<open>readQuiz\<close> give the value that a reference stands for in a store.
  \<open>storeExtends st st'\<close>: every array and object of \<open>st\<close> is in \<open>st'\<close>, unchanged.
  \<open>wfStore\<close>: every reference held in the store points into the store, as every
  reference of a running program does.
\<close>

definition readQuestion :: "Store \<Rightarrow> ref \<Rightarrow> Question" where
  "readQuestion st r =
     (let obj = questionObjects st ! r
      in \<lparr>questionNumber = objQuestionNumber obj, questionText = objQuestionText obj,
          options = stringArrays st ! objOptions obj, correctAnswer = objCorrectAnswer obj,
          image_opt = objImage obj\<rparr>)"

definition readQuiz :: "Store \<Rightarrow> ref \<Rightarrow> Quiz" where
  "readQuiz st r =
     (let obj = quizObjects st ! r
      in \<lparr>quiz = objQuiz obj, topic = objTopic obj,
          questions = map (readQuestion st) (questionArrays st ! objQuestions obj)\<rparr>)"

definition extends :: "'a list \<Rightarrow> 'a list \<Rightarrow> bool" where
  "extends h h' = (length h \<le> length h' \<and> take (length h) h' = h)"

definition storeExtends :: "Store \<Rightarrow> Store \<Rightarrow> bool" where
  "storeExtends st st' =
     (extends (stringArrays st) (stringArrays st')
    \<and> extends (questionArrays st) (questionArrays st')
    \<and> extends (questionObjects st) (questionObjects st')
    \<and> extends (quizObjects st) (quizObjects st'))"

definition wfStore :: "Store \<Rightarrow> bool" where
  "wfStore st =
     (list_all (\<lambda>obj. objQuestions obj < length (questionArrays st)) (quizObjects st)
    \<and> list_all (list_all (\<lambda>q. q < length (questionObjects st))) (questionArrays st)
    \<and> list_all (\<lambda>obj. objOptions obj < length (stringArrays st)) (questionObjects st))"

section \<open>Example data\<close>

definition demoQuestion :: "string \<Rightarrow> Question" where
  "demoQuestion t =
     \<lparr>questionNumber = 1, questionText = t, options = [''yes'', ''no'', ''maybe''],
      correctAnswer = ''yes'', image_opt = None\<rparr>"

definition demoQuizA :: Quiz where
  "demoQuizA = \<lparr>quiz = ''A'', topic = ''ta'',
                questions = [demoQuestion ''a1'', demoQuestion ''a2'']\<rparr>"

definition demoQuizB :: Quiz where
  "demoQuizB = \<lparr>quiz = ''B'', topic = ''tb'',
                questions = [demoQuestion ''b1'', demoQuestion ''b2'', demoQuestion ''b3'']\<rparr>"

definition demoCatalog :: QuizData where
  "demoCatalog = \<lparr>course = ''c'', description = ''d'', quizzes = [demoQuizA, demoQuizB]\<rparr>"

definition demoSession :: AppState where
  "demoSession =
     run (initialState (\<lambda>n. 0))
       [SelectQuiz demoQuizA, StartQuiz 1000, AnswerSelect ''no'' 2000,
        NavigateToQuestion 1, AnswerSelect ''yes'' 3000]"

definition emptyCatalog :: QuizData where
  "emptyCatalog = \<lparr>course = ''c'', description = ''d'', quizzes = []\<rparr>"

definition emptyCatalogSession :: AppState where
  "emptyCatalogSession =
     run (initialState (\<lambda>n. 0))
       [SelectQuiz (createAllQuestionsQuiz emptyCatalog), StartQuiz 1000]"

definition demoChallengeSession :: AppState where
  "demoChallengeSession =
     run (initialState (\<lambda>n. 0))
       [SelectQuiz demoQuizA, ToggleSetting KeyRestartOnIncorrect, StartQuiz 1000,
        AnswerSelect ''yes'' 2000, NavigateToQuestion 1]"

definition demoRandom :: random_source where
  "demoRandom = (\<lambda>n. if even n then 1 / 4 else 3 / 4)"

definition shuffleBoth :: QuizSettings where
  "shuffleBoth = \<lparr>shuffleQuestions = True, shuffleAnswers = True, restartOnIncorrect = False\<rparr>"

definition quiz40 :: Quiz where
  "quiz40 = \<lparr>quiz = ''Q'', topic = ''tq'',
      questions = map (\<lambda>n. (demoQuestion ''q'')\<lparr>questionNumber := int n\<rparr>) [1..<41]\<rparr>"

definition answer40 :: "nat \<Rightarrow> Event list" where
  "answer40 k = [AnswerSelect (if k < 23 then ''yes'' else ''no'') 1000,
                 NavigateToQuestion (int k + 1)]"

definition roundingSession :: AppState where
  "roundingSession =
     run (initialState (\<lambda>n. 0))
       ([SelectQuiz quiz40, StartQuiz 0] @ concat (map answer40 [0..<40]) @ [SubmitQuiz 90000])"

definition basicAnswers40 :: "BasicUserAnswer list" where
  "basicAnswers40 =
     map (\<lambda>k. \<lparr>basicQuestionIndex = int k,
                basicSelectedAnswer = (if k < 23 then ''yes'' else ''no''),
                basicIsCorrect = (k < 23)\<rparr>) [0..<40]"

definition demoStore :: Store where
  "demoStore =
     \<lparr>stringArrays = [[''yes'', ''no'', ''maybe''], [''yes'', ''no'', ''maybe''],
                       [''yes'', ''no'', ''maybe'']],
      questionArrays = [[0, 1, 2]],
      questionObjects =
        [\<lparr>objQuestionNumber = 1, objQuestionText = ''b1'', objOptions = 0,
           objCorrectAnswer = ''yes'', objImage = None\<rparr>,
         \<lparr>objQuestionNumber = 1, objQuestionText = ''b2'', objOptions = 1,
           objCorrectAnswer = ''yes'', objImage = None\<rparr>,
         \<lparr>objQuestionNumber = 1, objQuestionText = ''b3'', objOptions = 2,
           objCorrectAnswer = ''yes'', objImage = None\<rparr>],
      quizObjects = [\<lparr>objQuiz = ''B'', objTopic = ''tb'', objQuestions = 0\<rparr>]\<rparr>"

definition demoRandom2 :: random_source where
  "demoRandom2 = (\<lambda>n. if n < 8 then (if even n then 1 / 4 else 3 / 4) else 1 / 2)"

definition shuffledChallengeSession :: AppState where
  "shuffledChallengeSession =
     run (initialState demoRandom2)
       [SelectQuiz demoQuizB, ToggleSetting KeyShuffleQuestions, ToggleSetting KeyShuffleAnswers,
        ToggleSetting KeyRestartOnIncorrect, StartQuiz 1000, AnswerSelect ''yes'' 2000,
        NavigateToQuestion 1]"

section \<open>The master quiz: properties\<close>

lemma numberedFrom_append:
  "numberedFrom c (xs @ ys) = numberedFrom c xs @ numberedFrom (c + int (length xs)) ys"
  by (induction xs arbitrary: c) (simp_all add: add.assoc)

lemma length_numberedFrom [simp]: "length (numberedFrom c qs) = length qs"
  by (induction qs arbitrary: c) simp_all

lemma nth_numberedFrom:
  "k < length qs \<Longrightarrow> numberedFrom c qs ! k = (qs ! k)\<lparr>questionNumber := c + int k\<rparr>"
proof (induction qs arbitrary: c k)
  case Nil
  then show ?case by simp
next
  case (Cons q qs)
  show ?case
  proof (cases k)
    case 0
    then show ?thesis by simp
  next
    case (Suc m)
    with Cons show ?thesis by (simp add: add.assoc)
  qed
qed

lemma questionNumber_numberedFrom:
  "map questionNumber (numberedFrom c qs) = [c..c + int (length qs) - 1]"
proof (induction qs arbitrary: c)
  case Nil
  show ?case by simp
next
  case (Cons q qs)
  have "[c..c + int (length (q # qs)) - 1] = c # [c + 1..c + 1 + int (length qs) - 1]"
    by (subst upto_rec1) (simp_all add: add.assoc)
  with Cons show ?case by simp
qed

lemma forEachQuestion_numberedFrom:
  "forEachQuestion qs (acc, c) = (acc @ numberedFrom c qs, c + int (length qs))"
  by (induction qs arbitrary: acc c) (simp_all add: add.assoc)

lemma forEachQuiz_numberedFrom:
  "forEachQuiz qzs (acc, c) =
     (acc @ numberedFrom c (concat (map questions qzs)),
      c + int (length (concat (map questions qzs))))"
  by (induction qzs arbitrary: acc c)
     (simp_all add: forEachQuestion_numberedFrom numberedFrom_append add.assoc)

lemma questions_createAllQuestionsQuiz:
  "questions (createAllQuestionsQuiz d) = numberedFrom 1 (concat (map questions (quizzes d)))"
  by (simp add: createAllQuestionsQuiz_def forEachQuiz_numberedFrom)

text \<open>
  C5. The master quiz holds the questions of all catalog quizzes, concatenated in catalog
  order, each a copy of its original but for \<open>questionNumber\<close>, which is the position
  counted from 1; so the numbers are \<open>1..total\<close>. For a catalog of two quizzes with 2 and
  3 questions it is the five questions numbered 1 to 5.
\<close>

theorem createAllQuestionsQuiz_concat:
  "(let allQuestions = concat (map questions (quizzes d));
        master = createAllQuestionsQuiz d
    in quiz master = ''Master Challenge'' \<and> topic master = ''All Topics Combined''
     \<and> length (questions master) = length allQuestions
     \<and> (\<forall>k < length allQuestions.
           questions master ! k = (allQuestions ! k)\<lparr>questionNumber := int k + 1\<rparr>)
     \<and> map questionNumber (questions master) = [1..int (length allQuestions)]
     \<and> (\<forall>q1 q2. quizzes d = [q1, q2] \<and> length (questions q1) = 2 \<and> length (questions q2) = 3
           \<longrightarrow> questions master
                 = map (\<lambda>(n, q). q\<lparr>questionNumber := n\<rparr>)
                     (zip [1, 2, 3, 4, 5] (questions q1 @ questions q2))))"
proof -
  have ex: "questions (createAllQuestionsQuiz d)
              = map (\<lambda>(n, q). q\<lparr>questionNumber := n\<rparr>)
                  (zip [1, 2, 3, 4, 5] (questions q1 @ questions q2))"
    if "quizzes d = [q1, q2]" "length (questions q1) = 2" "length (questions q2) = 3"
    for q1 q2
  proof -
    from that(2) obtain a b where q1: "questions q1 = [a, b]"
      by (auto simp: length_Suc_conv numeral_2_eq_2)
    from that(3) obtain x y z where q2: "questions q2 = [x, y, z]"
      by (auto simp: length_Suc_conv numeral_3_eq_3)
    show ?thesis
      by (simp add: questions_createAllQuestionsQuiz that(1) q1 q2)
  qed
  show ?thesis
    unfolding Let_def
    apply (intro conjI allI impI)
         apply (simp add: createAllQuestionsQuiz_def split: prod.split)
        apply (simp add: createAllQuestionsQuiz_def split: prod.split)
       apply (simp add: questions_createAllQuestionsQuiz)
      apply (simp add: questions_createAllQuestionsQuiz nth_numberedFrom add.commute)
     apply (simp add: questions_createAllQuestionsQuiz questionNumber_numberedFrom)
    apply (rule ex; simp)
    done
qed

theorem createAllQuestionsQuiz_concat_witness:
  "map questionNumber (questions (createAllQuestionsQuiz demoCatalog)) = [1, 2, 3, 4, 5]
   \<and> map questionText (questions (createAllQuestionsQuiz demoCatalog))
       = [''a1'', ''a2'', ''b1'', ''b2'', ''b3'']
   \<and> questions (createAllQuestionsQuiz demoCatalog) ! 2 = (demoQuestion ''b1'')\<lparr>questionNumber := 3\<rparr>"
  using createAllQuestionsQuiz_concat [of demoCatalog]
  by (simp add: Let_def demoCatalog_def demoQuizA_def demoQuizB_def demoQuestion_def)

text \<open>
  C9. With both shuffles off, processing returns the quiz as it is (same questions, order,
  numbers and option orders) and draws nothing from the random source.
\<close>

theorem processQuizWithSettings_no_shuffle:
  "processQuizWithSettings qz
     \<lparr>shuffleQuestions = False, shuffleAnswers = False, restartOnIncorrect = r\<rparr> g = (qz, g)"
  by (simp add: processQuizWithSettings_def)

section \<open>Answer selection\<close>

lemma findIndex_range: "findIndex P xs = - 1 \<or> (0 \<le> findIndex P xs \<and> findIndex P xs < int (length xs))"
  by (induction xs) (auto simp: Let_def)

lemma findIndex_none: "findIndex P xs = - 1 \<longleftrightarrow> (\<forall>x \<in> set xs. \<not> P x)"
proof (induction xs)
  case Nil
  show ?case by simp
next
  case (Cons x xs)
  have "findIndex P xs \<noteq> - 1 \<Longrightarrow> findIndex P xs + 1 \<noteq> - 1"
    using findIndex_range [of P xs] by auto
  with Cons show ?case by (auto simp: Let_def)
qed

lemma findIndex_first:
  "findIndex P xs \<noteq> - 1 \<Longrightarrow>
     P (xs ! nat (findIndex P xs)) \<and> (\<forall>j < nat (findIndex P xs). \<not> P (xs ! j))"
proof (induction xs)
  case Nil
  then show ?case by simp
next
  case (Cons x xs)
  show ?case
  proof (cases "P x")
    case True
    then show ?thesis by simp
  next
    case False
    with Cons.prems have ne: "findIndex P xs \<noteq> - 1" by (auto simp: Let_def split: if_splits)
    then have ge: "0 \<le> findIndex P xs" using findIndex_range [of P xs] by auto
    from False ne have eq: "findIndex P (x # xs) = findIndex P xs + 1" by (simp add: Let_def)
    from ge have n: "nat (findIndex P xs + 1) = Suc (nat (findIndex P xs))" by simp
    from Cons.IH [OF ne] False show ?thesis
      unfolding eq n by (auto simp: less_Suc_eq_0_disj)
  qed
qed

lemma handleAnswerSelect_upsertAnswer:
  "processedQuiz s = Some pq \<Longrightarrow>
     handleAnswerSelect s answer
       = s\<lparr>userAnswers := upsertAnswer (currentQuestionIndex s) answer (userAnswers s)\<rparr>"
  by (simp add: handleAnswerSelect_def upsertAnswer_def Let_def)

lemma upsertAnswer_indices:
  "set (map questionIndex (upsertAnswer cur answer answers))
     = insert cur (set (map questionIndex answers))"
proof (cases "findIndex (\<lambda>ans. questionIndex ans = cur) answers = - 1")
  case True
  then show ?thesis by (simp add: upsertAnswer_def)
next
  case False
  let ?k = "nat (findIndex (\<lambda>ans. questionIndex ans = cur) answers)"
  from False findIndex_range [of "\<lambda>ans. questionIndex ans = cur" answers]
  have k: "?k < length answers" by auto
  from findIndex_first [OF False] have "questionIndex (answers ! ?k) = cur" by simp
  with k have "(map questionIndex answers)[?k := cur] = map questionIndex answers"
    by (metis length_map list_update_id nth_map)
  moreover from k have "cur \<in> set (map questionIndex answers)"
    using \<open>questionIndex (answers ! ?k) = cur\<close> by (metis length_map nth_map nth_mem)
  ultimately show ?thesis using False
    by (auto simp: upsertAnswer_def Let_def map_update)
qed

lemma upsertAnswer_map_index:
  "map questionIndex (upsertAnswer cur answer answers)
     = (if cur \<in> set (map questionIndex answers) then map questionIndex answers
        else map questionIndex answers @ [cur])"
proof (cases "findIndex (\<lambda>ans. questionIndex ans = cur) answers = - 1")
  case True
  then have "cur \<notin> set (map questionIndex answers)"
    by (auto simp: findIndex_none)
  with True show ?thesis by (simp add: upsertAnswer_def)
next
  case False
  let ?k = "nat (findIndex (\<lambda>ans. questionIndex ans = cur) answers)"
  from False findIndex_range [of "\<lambda>ans. questionIndex ans = cur" answers]
  have k: "?k < length answers" by auto
  from findIndex_first [OF False] have c: "questionIndex (answers ! ?k) = cur" by simp
  with k have "(map questionIndex answers)[?k := cur] = map questionIndex answers"
    by (metis length_map list_update_id nth_map)
  moreover from k c have "cur \<in> set (map questionIndex answers)"
    by (metis length_map nth_map nth_mem)
  ultimately show ?thesis using False
    by (auto simp: upsertAnswer_def Let_def map_update)
qed

lemma upsertAnswer_distinct:
  "distinct (map questionIndex answers) \<Longrightarrow>
     distinct (map questionIndex (upsertAnswer cur answer answers))"
  by (simp add: upsertAnswer_map_index)

lemma upsertAnswer_filter:
  assumes "distinct (map questionIndex answers)"
  shows "filter (\<lambda>a. questionIndex a = cur) (upsertAnswer cur answer answers)
           = [\<lparr>questionIndex = cur, selectedAnswer = answer, isCorrect = None\<rparr>]"
  using assms
proof (induction answers)
  case Nil
  show ?case by (simp add: upsertAnswer_def)
next
  case (Cons a answers)
  let ?P = "\<lambda>ans. questionIndex ans = cur"
  show ?case
  proof (cases "questionIndex a = cur")
    case True
    with Cons.prems have "cur \<notin> questionIndex ` set answers" by simp
    then have "\<forall>b \<in> set answers. questionIndex b \<noteq> cur" by blast
    then have "filter ?P answers = []" by (auto simp: filter_empty_conv)
    with True show ?thesis by (simp add: upsertAnswer_def)
  next
    case False
    from Cons have IH: "filter ?P (upsertAnswer cur answer answers)
           = [\<lparr>questionIndex = cur, selectedAnswer = answer, isCorrect = None\<rparr>]" by simp
    have r: "findIndex ?P answers \<noteq> - 1 \<Longrightarrow> nat (findIndex ?P answers + 1) = Suc (nat (findIndex ?P answers))"
      using findIndex_range [of ?P answers] by auto
    have r2: "findIndex ?P answers \<noteq> - 1 \<Longrightarrow> findIndex ?P answers + 1 \<noteq> - 1"
      using findIndex_range [of ?P answers] by auto
    have "upsertAnswer cur answer (a # answers) = a # upsertAnswer cur answer answers"
      using False r r2 by (auto simp: upsertAnswer_def Let_def)
    with False IH show ?thesis by simp
  qed
qed

lemma upsertAnswer_replace_or_append:
  "(cur \<in> set (map questionIndex answers) \<longrightarrow>
      (\<exists>k < length answers. questionIndex (answers ! k) = cur
          \<and> (\<forall>j < k. questionIndex (answers ! j) \<noteq> cur)
          \<and> upsertAnswer cur answer answers
              = answers[k := \<lparr>questionIndex = cur, selectedAnswer = answer, isCorrect = None\<rparr>]))
   \<and> (cur \<notin> set (map questionIndex answers) \<longrightarrow>
        upsertAnswer cur answer answers
          = answers @ [\<lparr>questionIndex = cur, selectedAnswer = answer, isCorrect = None\<rparr>])"
proof (cases "findIndex (\<lambda>ans. questionIndex ans = cur) answers = - 1")
  case True
  then have "cur \<notin> set (map questionIndex answers)"
    by (auto simp: findIndex_none)
  with True show ?thesis by (simp add: upsertAnswer_def)
next
  case False
  let ?k = "nat (findIndex (\<lambda>ans. questionIndex ans = cur) answers)"
  from False findIndex_range [of "\<lambda>ans. questionIndex ans = cur" answers]
  have k: "?k < length answers" by auto
  from findIndex_first [OF False]
  have c: "questionIndex (answers ! ?k) = cur" "\<forall>j < ?k. questionIndex (answers ! j) \<noteq> cur"
    by simp_all
  from k c have "cur \<in> set (map questionIndex answers)"
    by (metis length_map nth_map nth_mem)
  moreover have "upsertAnswer cur answer answers
      = answers[?k := \<lparr>questionIndex = cur, selectedAnswer = answer, isCorrect = None\<rparr>]"
    using False by (simp add: upsertAnswer_def)
  ultimately show ?thesis using k c by blast
qed

text \<open>
  C4. While a quiz is in progress, selecting an answer leaves every other part of the state
  as it is and upserts into the answer list: if an entry for the current index exists, the
  first such entry is replaced in place, otherwise an entry is appended. If the indices of
  the list are distinct they stay distinct, and after a second selection for the same
  index the list holds exactly one entry for it, with the second value.
\<close>

theorem handleAnswerSelect_upsert:
  assumes "processedQuiz s = Some pq"
  shows "(let cur = currentQuestionIndex s;
              answers = userAnswers s;
              new = \<lparr>questionIndex = cur, selectedAnswer = answer, isCorrect = None\<rparr>;
              s' = handleAnswerSelect s answer;
              s'' = handleAnswerSelect s' answer2
          in s' = s\<lparr>userAnswers := userAnswers s'\<rparr>
           \<and> (cur \<in> set (map questionIndex answers) \<longrightarrow>
                (\<exists>k < length answers. questionIndex (answers ! k) = cur
                    \<and> (\<forall>j < k. questionIndex (answers ! j) \<noteq> cur)
                    \<and> userAnswers s' = answers[k := new]))
           \<and> (cur \<notin> set (map questionIndex answers) \<longrightarrow> userAnswers s' = answers @ [new])
           \<and> (distinct (map questionIndex answers) \<longrightarrow>
                distinct (map questionIndex (userAnswers s'))
              \<and> filter (\<lambda>a. questionIndex a = cur) (userAnswers s'')
                  = [\<lparr>questionIndex = cur, selectedAnswer = answer2, isCorrect = None\<rparr>]))"
proof -
  let ?s' = "handleAnswerSelect s answer"
  have s': "?s' = s\<lparr>userAnswers := upsertAnswer (currentQuestionIndex s) answer (userAnswers s)\<rparr>"
    using assms by (rule handleAnswerSelect_upsertAnswer)
  then have pq': "processedQuiz ?s' = Some pq" and cur': "currentQuestionIndex ?s' = currentQuestionIndex s"
    using assms by simp_all
  have s'': "userAnswers (handleAnswerSelect ?s' answer2)
      = upsertAnswer (currentQuestionIndex s) answer2
          (upsertAnswer (currentQuestionIndex s) answer (userAnswers s))"
    by (subst handleAnswerSelect_upsertAnswer [OF pq']) (simp add: s')
  show ?thesis
    unfolding Let_def
    apply (intro conjI)
       apply (simp add: s')
      apply (simp only: s') 
      using upsertAnswer_replace_or_append [of "currentQuestionIndex s" "userAnswers s" answer]
      apply simp
     using upsertAnswer_replace_or_append [of "currentQuestionIndex s" "userAnswers s" answer]
     apply (simp add: s')
    apply (simp only: s'')
    apply (simp add: s' upsertAnswer_distinct upsertAnswer_filter)
    done
qed

lemma demoSession_quiz: "processedQuiz demoSession = Some demoQuizA"
  by code_simp

lemma demoSession_answers:
  "userAnswers demoSession =
     [\<lparr>questionIndex = 0, selectedAnswer = ''no'', isCorrect = None\<rparr>,
      \<lparr>questionIndex = 1, selectedAnswer = ''yes'', isCorrect = None\<rparr>]"
  by code_simp

lemma demoSession_index: "currentQuestionIndex demoSession = 1"
  by code_simp

theorem handleAnswerSelect_upsert_witness:
  "processedQuiz demoSession = Some demoQuizA
   \<and> distinct (map questionIndex (userAnswers (handleAnswerSelect demoSession ''maybe'')))
   \<and> filter (\<lambda>a. questionIndex a = 1)
        (userAnswers (handleAnswerSelect (handleAnswerSelect demoSession ''maybe'') ''no''))
       = [\<lparr>questionIndex = 1, selectedAnswer = ''no'', isCorrect = None\<rparr>]"
  using handleAnswerSelect_upsert [OF demoSession_quiz, of "''maybe''" "''no''"]
  by (simp add: Let_def demoSession_quiz demoSession_answers demoSession_index)

section \<open>The invariant of the session\<close>

lemma answersInv_Nil: "answersInv pq settings []"
  by (simp add: answersInv_def)

lemma sessionInv_initialState: "sessionInv (initialState g)"
  by (simp add: sessionInv_def initialState_def)

lemma sessionInv_selectQuiz:
  "sessionInv s \<Longrightarrow> currentView s = ViewHome \<Longrightarrow> sessionInv (selectQuiz s qz)"
  by (simp add: sessionInv_def selectQuiz_def)

lemma sessionInv_toggle:
  "sessionInv s \<Longrightarrow> settingsViewMounted s \<Longrightarrow>
     sessionInv (s\<lparr>quizSettings := toggleSetting (quizSettings s) k\<rparr>)"
  by (simp add: sessionInv_def settingsViewMounted_def)

lemma sessionInv_fresh:
  assumes "selectedQuiz s = Some qz"
  shows "sessionInv (s\<lparr>processedQuiz := Some quizToUse, currentQuestionIndex := 0,
                userAnswers := [], startTime := Some now, endTime := None,
                quizSubmitted := False, currentView := ViewQuiz, randomSource := g'\<rparr>)"
  using assms by (simp add: sessionInv_def attemptInv_def answersInv_Nil indexInv_def)

lemma sessionInv_startQuiz: "sessionInv s \<Longrightarrow> sessionInv (startQuiz s now)"
  by (cases "selectedQuiz s") (simp_all add: startQuiz_def sessionInv_fresh split: prod.split)

lemma sessionInv_restartQuiz: "sessionInv s \<Longrightarrow> sessionInv (restartQuiz s now)"
  by (cases "selectedQuiz s") (simp_all add: restartQuiz_def sessionInv_fresh split: prod.split)

lemma sessionInv_resetQuiz: "sessionInv (resetQuiz s)"
  by (simp add: sessionInv_def resetQuiz_def)

lemma quizViewQuestion_Some:
  "quizViewQuestion s = Some cq \<longleftrightarrow>
     currentView s = ViewQuiz
   \<and> (\<exists>pq. processedQuiz s = Some pq \<and> 0 \<le> currentQuestionIndex s
          \<and> currentQuestionIndex s < int (length (questions pq))
          \<and> cq = questions pq ! nat (currentQuestionIndex s))"
  by (auto simp: quizViewQuestion_def arrayGet_def split: option.splits)

lemma sessionInv_quizView:
  assumes "sessionInv s" "quizViewQuestion s = Some cq"
  obtains pq where "currentView s = ViewQuiz" "processedQuiz s = Some pq"
    "selectedQuiz s \<noteq> None"
    "0 \<le> currentQuestionIndex s" "currentQuestionIndex s < int (length (questions pq))"
    "cq = questions pq ! nat (currentQuestionIndex s)"
    "answersInv pq (quizSettings s) (userAnswers s)"
proof -
  from assms(2) obtain pq where v: "currentView s = ViewQuiz" and pq: "processedQuiz s = Some pq"
    and i: "0 \<le> currentQuestionIndex s" "currentQuestionIndex s < int (length (questions pq))"
    and cqe: "cq = questions pq ! nat (currentQuestionIndex s)"
    unfolding quizViewQuestion_Some by blast
  from assms(1) v have "attemptInv s" by (simp add: sessionInv_def)
  then have "selectedQuiz s \<noteq> None" "answersInv pq (quizSettings s) (userAnswers s)"
    using pq by (simp_all add: attemptInv_def)
  from that [OF v pq this(1) i cqe this(2)] show thesis .
qed

lemma sessionInv_navigateToQuestion:
  assumes "sessionInv s"
  shows "sessionInv (navigateToQuestion s index)"
proof (cases "processedQuiz s")
  case None
  with assms show ?thesis by (simp add: navigateToQuestion_def)
next
  case (Some pq)
  show ?thesis
  proof (cases "0 \<le> index \<and> index < int (length (questions pq))")
    case False
    with Some assms show ?thesis by (auto simp add: navigateToQuestion_def)
  next
    case True
    then have ix: "indexInv pq index" by (simp add: indexInv_def)
    from assms Some have v: "currentView s = ViewQuiz \<or> currentView s = ViewResults"
      and att: "attemptInv s"
      by (auto simp: sessionInv_def split: if_splits)
    from att Some ix have "attemptInv (s\<lparr>currentQuestionIndex := index\<rparr>)"
      by (simp add: attemptInv_def)
    with v Some True show ?thesis
      by (simp add: navigateToQuestion_def sessionInv_def)
  qed
qed

lemma set_upsertAnswer:
  "set (upsertAnswer cur answer answers)
     \<subseteq> insert \<lparr>questionIndex = cur, selectedAnswer = answer, isCorrect = None\<rparr> (set answers)"
proof (cases "findIndex (\<lambda>ans. questionIndex ans = cur) answers = - 1")
  case True
  then show ?thesis by (simp add: upsertAnswer_def)
next
  case False
  then show ?thesis
    using set_update_subset_insert [of answers]
    by (simp add: upsertAnswer_def)
qed

lemma answersInv_upsertAnswer:
  assumes "answersInv pq settings answers"
    and "0 \<le> cur" "cur < int (length (questions pq))"
    and "restartOnIncorrect settings \<longrightarrow> answer = correctAnswer (questions pq ! nat cur)"
  shows "answersInv pq settings (upsertAnswer cur answer answers)"
proof -
  let ?new = "\<lparr>questionIndex = cur, selectedAnswer = answer, isCorrect = None\<rparr>"
  let ?as = "upsertAnswer cur answer answers"
  have sub: "set ?as \<subseteq> insert ?new (set answers)" by (rule set_upsertAnswer)
  from assms(1) have d: "distinct (map questionIndex answers)"
    and r: "\<forall>a \<in> set answers. 0 \<le> questionIndex a \<and> questionIndex a < int (length (questions pq))"
    and c: "restartOnIncorrect settings \<longrightarrow>
            (\<forall>a \<in> set answers. selectedAnswer a = correctAnswer (questions pq ! nat (questionIndex a)))"
    by (simp_all add: answersInv_def)
  have d': "distinct (map questionIndex ?as)" using d by (rule upsertAnswer_distinct)
  have r': "0 \<le> questionIndex a \<and> questionIndex a < int (length (questions pq))"
    if "a \<in> set ?as" for a
  proof -
    from that sub have "a = ?new \<or> a \<in> set answers" by blast
    then show ?thesis using r assms(2,3) by (elim disjE) simp_all
  qed
  have c': "selectedAnswer a = correctAnswer (questions pq ! nat (questionIndex a))"
    if "a \<in> set ?as" "restartOnIncorrect settings" for a
  proof -
    from that(1) sub have "a = ?new \<or> a \<in> set answers" by blast
    then show ?thesis using c assms(4) that(2) by (elim disjE) simp_all
  qed
  from d' r' c' show ?thesis unfolding answersInv_def by blast
qed

lemma sessionInv_handleAnswerSelect:
  assumes inv: "sessionInv s" and cq: "quizViewQuestion s = Some cq"
    and ok: "restartOnIncorrect (quizSettings s) \<longrightarrow> answer = correctAnswer cq"
  shows "sessionInv (handleAnswerSelect s answer)"
proof -
  from inv cq obtain pq where v: "currentView s = ViewQuiz" and pq: "processedQuiz s = Some pq"
    and sq: "selectedQuiz s \<noteq> None"
    and i: "0 \<le> currentQuestionIndex s" "currentQuestionIndex s < int (length (questions pq))"
    and cqe: "cq = questions pq ! nat (currentQuestionIndex s)"
    and a: "answersInv pq (quizSettings s) (userAnswers s)"
    by (rule sessionInv_quizView)
  have s': "handleAnswerSelect s answer
      = s\<lparr>userAnswers := upsertAnswer (currentQuestionIndex s) answer (userAnswers s)\<rparr>"
    using pq by (rule handleAnswerSelect_upsertAnswer)
  from ok cqe have "restartOnIncorrect (quizSettings s) \<longrightarrow>
      answer = correctAnswer (questions pq ! nat (currentQuestionIndex s))" by simp
  from answersInv_upsertAnswer [OF a i this]
  show ?thesis
    unfolding s' using v pq sq i by (simp add: sessionInv_def attemptInv_def indexInv_def)
qed

lemma sessionInv_QuizView_handleAnswerSelect:
  assumes "sessionInv s" "quizViewQuestion s = Some cq"
  shows "sessionInv (QuizView_handleAnswerSelect s cq answer now)"
proof (cases "restartOnIncorrect (quizSettings s) \<and> answer \<noteq> correctAnswer cq")
  case True
  with assms(1) show ?thesis
    by (simp add: QuizView_handleAnswerSelect_def sessionInv_restartQuiz)
next
  case False
  then have "restartOnIncorrect (quizSettings s) \<longrightarrow> answer = correctAnswer cq" by blast
  from sessionInv_handleAnswerSelect [OF assms this] False show ?thesis
    by (auto simp add: QuizView_handleAnswerSelect_def)
qed

lemma marked_simps [simp]:
  "questionIndex (marked pq a) = questionIndex a"
  "selectedAnswer (marked pq a) = selectedAnswer a"
  "isCorrect (marked pq a)
     = Some (selectedAnswer a = correctAnswer (questions pq ! nat (questionIndex a)))"
  by (simp_all add: marked_def)

lemma mapThrowing_markAnswer:
  "(\<forall>a \<in> set answers. 0 \<le> questionIndex a \<and> questionIndex a < int (length (questions pq))) \<Longrightarrow>
     mapThrowing (markAnswer pq) answers = Inr (map (marked pq) answers)"
  by (induction answers) (simp_all add: markAnswer_def arrayGet_def marked_def)

lemma answersInv_marked:
  assumes "answersInv pq settings answers"
  shows "answersInv pq settings (map (marked pq) answers)"
proof -
  have "map questionIndex (map (marked pq) answers) = map questionIndex answers"
    by (induction answers) simp_all
  with assms show ?thesis by (simp add: answersInv_def del: map_map)
qed

lemma submitQuiz_quizView:
  assumes inv: "sessionInv s" and cq: "quizViewQuestion s = Some cq"
  obtains pq where "processedQuiz s = Some pq"
    "submitQuiz s now
       = Inr (s\<lparr>userAnswers := map (marked pq) (userAnswers s), endTime := Some now,
                 quizSubmitted := True, currentView := ViewResults\<rparr>)"
proof -
  from inv cq obtain pq where pq: "processedQuiz s = Some pq"
    and a: "answersInv pq (quizSettings s) (userAnswers s)"
    by (rule sessionInv_quizView)
  from a have "\<forall>a \<in> set (userAnswers s).
      0 \<le> questionIndex a \<and> questionIndex a < int (length (questions pq))"
    by (simp add: answersInv_def)
  from mapThrowing_markAnswer [OF this] pq
  have "submitQuiz s now
       = Inr (s\<lparr>userAnswers := map (marked pq) (userAnswers s), endTime := Some now,
                 quizSubmitted := True, currentView := ViewResults\<rparr>)"
    by (simp add: submitQuiz_def)
  with pq show thesis by (rule that)
qed

lemma sessionInv_submitQuiz:
  assumes inv: "sessionInv s" and cq: "quizViewQuestion s = Some cq"
  shows "\<exists>s'. submitQuiz s now = Inr s' \<and> sessionInv s'"
proof -
  from inv cq obtain pq where v: "currentView s = ViewQuiz" and pq: "processedQuiz s = Some pq"
    and sq: "selectedQuiz s \<noteq> None"
    and i: "0 \<le> currentQuestionIndex s" "currentQuestionIndex s < int (length (questions pq))"
    and a: "answersInv pq (quizSettings s) (userAnswers s)"
    by (rule sessionInv_quizView)
  from submitQuiz_quizView [OF inv cq, of now] pq
  have eq: "submitQuiz s now
       = Inr (s\<lparr>userAnswers := map (marked pq) (userAnswers s), endTime := Some now,
                 quizSubmitted := True, currentView := ViewResults\<rparr>)"
    by auto
  from i have ne: "questions pq \<noteq> []" by auto
  have "sessionInv (s\<lparr>userAnswers := map (marked pq) (userAnswers s), endTime := Some now,
                 quizSubmitted := True, currentView := ViewResults\<rparr>)"
    using pq sq i ne answersInv_marked [OF a]
    by (simp add: sessionInv_def attemptInv_def indexInv_def)
  with eq show ?thesis by simp
qed

lemma sessionInv_step: "sessionInv s \<Longrightarrow> sessionInv (step s e)"
proof (cases e)
  case (SelectQuiz qz)
  assume "sessionInv s"
  with SelectQuiz show ?thesis by (simp add: sessionInv_selectQuiz)
next
  case (ToggleSetting k)
  assume "sessionInv s"
  with ToggleSetting show ?thesis by (simp add: sessionInv_toggle)
next
  case (StartQuiz now)
  assume "sessionInv s"
  with StartQuiz show ?thesis by (simp add: sessionInv_startQuiz)
next
  case (AnswerSelect answer now)
  assume "sessionInv s"
  with AnswerSelect show ?thesis
    by (cases "quizViewQuestion s") (simp_all add: sessionInv_QuizView_handleAnswerSelect)
next
  case (NavigateToQuestion index)
  assume "sessionInv s"
  with NavigateToQuestion show ?thesis
    by (cases "quizViewQuestion s") (simp_all add: sessionInv_navigateToQuestion)
next
  case (SubmitQuiz now)
  assume inv: "sessionInv s"
  show ?thesis
  proof (cases "quizViewQuestion s")
    case None
    with inv SubmitQuiz show ?thesis by simp
  next
    case (Some cq)
    from sessionInv_submitQuiz [OF inv Some, of now]
    obtain s' where "submitQuiz s now = Inr s'" "sessionInv s'" by blast
    with SubmitQuiz Some show ?thesis by simp
  qed
next
  case GoHome
  assume "sessionInv s"
  with GoHome show ?thesis by (simp add: sessionInv_resetQuiz)
next
  case (Restart now)
  assume "sessionInv s"
  with Restart show ?thesis by (simp add: sessionInv_restartQuiz)
qed

lemma sessionInv_run: "sessionInv s \<Longrightarrow> sessionInv (run s events)"
  unfolding run_def by (induction events arbitrary: s) (simp_all add: sessionInv_step)

lemma sessionInv_reachable: "sessionInv (run (initialState g) events)"
  by (rule sessionInv_run [OF sessionInv_initialState])

lemma sessionInv_attempt:
  assumes "sessionInv s" "processedQuiz s = Some pq"
  shows "indexInv pq (currentQuestionIndex s)" "answersInv pq (quizSettings s) (userAnswers s)"
    "selectedQuiz s \<noteq> None"
proof -
  from assms have "attemptInv s" by (auto simp: sessionInv_def split: if_splits)
  with assms(2) show "indexInv pq (currentQuestionIndex s)"
    "answersInv pq (quizSettings s) (userAnswers s)" "selectedQuiz s \<noteq> None"
    by (simp_all add: attemptInv_def)
qed

section \<open>Navigation, submission and challenge mode\<close>

lemma demoSession_view: "quizViewQuestion demoSession = Some (demoQuestion ''a2'')"
  by code_simp

lemma demoChallengeSession_eval:
  "quizViewQuestion demoChallengeSession = Some (demoQuestion ''a2'')"
  "restartOnIncorrect (quizSettings demoChallengeSession)"
  "processedQuiz demoChallengeSession = Some demoQuizA"
  "userAnswers demoChallengeSession
     = [\<lparr>questionIndex = 0, selectedAnswer = ''yes'', isCorrect = None\<rparr>]"
  by code_simp+

text \<open>
  The bounds check of navigation. Navigating to an index outside \<open>[0, N)\<close> leaves the
  whole state unchanged; navigating to an index inside sets the current index to it
  whatever the recorded answers are; and in every reachable state whose processed quiz has
  a question the current index is inside the question list.
\<close>

lemma navigateToQuestion_bounds:
  "(processedQuiz s = Some pq \<and> \<not> (0 \<le> index \<and> index < int (length (questions pq)))
      \<longrightarrow> navigateToQuestion s index = s)
   \<and> (processedQuiz s = Some pq \<and> 0 \<le> index \<and> index < int (length (questions pq))
      \<longrightarrow> navigateToQuestion s index = s\<lparr>currentQuestionIndex := index\<rparr>)
   \<and> (processedQuiz (run (initialState g) events) = Some rq \<and> questions rq \<noteq> []
      \<longrightarrow> 0 \<le> currentQuestionIndex (run (initialState g) events)
        \<and> currentQuestionIndex (run (initialState g) events) < int (length (questions rq)))"
proof (intro conjI impI)
  assume "processedQuiz s = Some pq \<and> \<not> (0 \<le> index \<and> index < int (length (questions pq)))"
  then show "navigateToQuestion s index = s"
    by (auto simp: navigateToQuestion_def)
next
  assume "processedQuiz s = Some pq \<and> 0 \<le> index \<and> index < int (length (questions pq))"
  then show "navigateToQuestion s index = s\<lparr>currentQuestionIndex := index\<rparr>"
    by (simp add: navigateToQuestion_def)
next
  assume a: "processedQuiz (run (initialState g) events) = Some rq \<and> questions rq \<noteq> []"
  then have "indexInv rq (currentQuestionIndex (run (initialState g) events))"
    using sessionInv_attempt(1) [OF sessionInv_reachable] by blast
  with a show "0 \<le> currentQuestionIndex (run (initialState g) events)"
    and "currentQuestionIndex (run (initialState g) events) < int (length (questions rq))"
    by (simp_all add: indexInv_def)
qed

lemma navigateToQuestion_bounds_example:
  "navigateToQuestion demoSession 2 = demoSession
   \<and> navigateToQuestion demoSession (- 1) = demoSession
   \<and> navigateToQuestion demoSession 0 = demoSession\<lparr>currentQuestionIndex := 0\<rparr>
   \<and> 0 \<le> currentQuestionIndex demoSession \<and> currentQuestionIndex demoSession < 2"
proof -
  have q: "processedQuiz demoSession = Some demoQuizA" by (rule demoSession_quiz)
  have n: "length (questions demoQuizA) = 2" "questions demoQuizA \<noteq> []" by code_simp+
  note b = navigateToQuestion_bounds [of demoSession demoQuizA _ "\<lambda>n. 0"
      "[SelectQuiz demoQuizA, StartQuiz 1000, AnswerSelect ''no'' 2000,
        NavigateToQuestion 1, AnswerSelect ''yes'' 3000]" demoQuizA, folded demoSession_def]
  from b [of 2] b [of "- 1"] b [of 0] q n show ?thesis by simp
qed

text \<open>
  C8 at the master quiz of a catalog with no quiz, which the home view offers like any
  other. \<open>createAllQuestionsQuiz\<close> gives a quiz with no question; \<open>startQuiz\<close> shows the quiz
  view with current index 0 all the same, and 0 is not an index of the empty question
  list: \<open>quiz.questions[currentQuestionIndex]\<close> is \<open>undefined\<close>, the render of \<open>QuizView\<close>
  reads \<open>currentQuestion.questionText\<close> and throws, and no control is mounted. The
  sibling paths guard the case: \<open>navigateToQuestion\<close> refuses index 0 here and
  \<open>calculateResults\<close> tests \<open>totalQuestions > 0\<close>.
\<close>

theorem startQuiz_empty_master_quiz:
  "questions (createAllQuestionsQuiz emptyCatalog) = []
   \<and> currentView emptyCatalogSession = ViewQuiz
   \<and> processedQuiz emptyCatalogSession = Some (createAllQuestionsQuiz emptyCatalog)
   \<and> currentQuestionIndex emptyCatalogSession = 0
   \<and> arrayGet (questions (createAllQuestionsQuiz emptyCatalog))
         (currentQuestionIndex emptyCatalogSession) = None
   \<and> quizViewQuestion emptyCatalogSession = None
   \<and> currentQuestionIndex (navigateToQuestion (emptyCatalogSession\<lparr>currentQuestionIndex := 5\<rparr>) 0)
       = 5
   \<and> percentage (calculateResults emptyCatalogSession) = 0"
  by code_simp

text \<open>
  C7. In every reachable state in which the quiz view is mounted, \<open>submitQuiz\<close> does not
  throw; it sets the end time and the submitted flag, shows the results view, and keeps
  the list of answers position by position: same question index, same selected answer,
  and \<open>isCorrect\<close> true exactly when the selected answer is the correct answer of the
  processed quiz's question at that index. No entry is added or removed.
\<close>

theorem submitQuiz_marks_answers:
  assumes "s = run (initialState g) events" and "quizViewQuestion s = Some cq"
  shows "\<exists>pq s'. processedQuiz s = Some pq \<and> submitQuiz s now = Inr s'
           \<and> step s (SubmitQuiz now) = s'
           \<and> s' = s\<lparr>userAnswers := userAnswers s', endTime := Some now,
                    quizSubmitted := True, currentView := ViewResults\<rparr>
           \<and> map questionIndex (userAnswers s') = map questionIndex (userAnswers s)
           \<and> map selectedAnswer (userAnswers s') = map selectedAnswer (userAnswers s)
           \<and> (\<forall>k < length (userAnswers s).
                 \<exists>q. arrayGet (questions pq) (questionIndex (userAnswers s ! k)) = Some q
                   \<and> isCorrect (userAnswers s' ! k)
                       = Some (selectedAnswer (userAnswers s ! k) = correctAnswer q))"
proof -
  have inv: "sessionInv s" unfolding assms(1) by (rule sessionInv_reachable)
  from inv assms(2) obtain pq where pq: "processedQuiz s = Some pq"
    and a: "answersInv pq (quizSettings s) (userAnswers s)"
    by (rule sessionInv_quizView)
  let ?s' = "s\<lparr>userAnswers := map (marked pq) (userAnswers s), endTime := Some now,
                 quizSubmitted := True, currentView := ViewResults\<rparr>"
  from submitQuiz_quizView [OF inv assms(2), of now] pq
  have eq: "submitQuiz s now = Inr ?s'" by auto
  have st: "step s (SubmitQuiz now) = ?s'" using assms(2) eq by simp
  have m1: "map questionIndex (map (marked pq) (userAnswers s)) = map questionIndex (userAnswers s)"
    and m2: "map selectedAnswer (map (marked pq) (userAnswers s)) = map selectedAnswer (userAnswers s)"
    by (simp_all add: comp_def)
  have m3: "\<exists>q. arrayGet (questions pq) (questionIndex (userAnswers s ! k)) = Some q
                   \<and> isCorrect (userAnswers ?s' ! k)
                       = Some (selectedAnswer (userAnswers s ! k) = correctAnswer q)"
    if "k < length (userAnswers s)" for k
  proof -
    from that have "userAnswers s ! k \<in> set (userAnswers s)" by simp
    with a have "0 \<le> questionIndex (userAnswers s ! k)"
      "questionIndex (userAnswers s ! k) < int (length (questions pq))"
      by (simp_all add: answersInv_def)
    with that show ?thesis by (simp add: arrayGet_def)
  qed
  have ua: "userAnswers ?s' = map (marked pq) (userAnswers s)" by simp
  have sh: "?s' = s\<lparr>userAnswers := userAnswers ?s', endTime := Some now,
                    quizSubmitted := True, currentView := ViewResults\<rparr>" by simp
  have "processedQuiz s = Some pq \<and> submitQuiz s now = Inr ?s'
           \<and> step s (SubmitQuiz now) = ?s'
           \<and> ?s' = s\<lparr>userAnswers := userAnswers ?s', endTime := Some now,
                    quizSubmitted := True, currentView := ViewResults\<rparr>
           \<and> map questionIndex (userAnswers ?s') = map questionIndex (userAnswers s)
           \<and> map selectedAnswer (userAnswers ?s') = map selectedAnswer (userAnswers s)
           \<and> (\<forall>k < length (userAnswers s).
                 \<exists>q. arrayGet (questions pq) (questionIndex (userAnswers s ! k)) = Some q
                   \<and> isCorrect (userAnswers ?s' ! k)
                       = Some (selectedAnswer (userAnswers s ! k) = correctAnswer q))"
    using pq eq st sh m3 unfolding ua m1 m2 by blast
  then show ?thesis by blast
qed

theorem submitQuiz_marks_answers_witness:
  "\<exists>s'. submitQuiz demoSession 5000 = Inr s' \<and> currentView s' = ViewResults
      \<and> endTime s' = Some 5000
      \<and> map questionIndex (userAnswers s') = [0, 1]
      \<and> isCorrect (userAnswers s' ! 0) = Some False
      \<and> isCorrect (userAnswers s' ! 1) = Some True"
proof -
  from submitQuiz_marks_answers [OF demoSession_def demoSession_view, of 5000]
  obtain pq s' where pq: "processedQuiz demoSession = Some pq"
    and sub: "submitQuiz demoSession 5000 = Inr s'"
    and sh: "s' = demoSession\<lparr>userAnswers := userAnswers s', endTime := Some 5000,
                    quizSubmitted := True, currentView := ViewResults\<rparr>"
    and ix: "map questionIndex (userAnswers s') = map questionIndex (userAnswers demoSession)"
    and mk: "\<forall>k < length (userAnswers demoSession).
                 \<exists>q. arrayGet (questions pq) (questionIndex (userAnswers demoSession ! k)) = Some q
                   \<and> isCorrect (userAnswers s' ! k)
                       = Some (selectedAnswer (userAnswers demoSession ! k) = correctAnswer q)"
    by blast
  from pq have pq': "pq = demoQuizA" by (simp add: demoSession_quiz)
  have v: "currentView s' = ViewResults" "endTime s' = Some 5000"
    by (subst sh, simp)+
  from mk [rule_format, of 0] have c0: "isCorrect (userAnswers s' ! 0) = Some False"
    by (auto simp: demoSession_answers pq' arrayGet_def demoQuizA_def demoQuestion_def)
  from mk [rule_format, of 1] have c1: "isCorrect (userAnswers s' ! 1) = Some True"
    by (auto simp: demoSession_answers pq' arrayGet_def demoQuizA_def demoQuestion_def)
  from sub v ix c0 c1 show ?thesis by (auto simp: demoSession_answers)
qed

text \<open>
  C10. In every reachable state with challenge mode on, every recorded answer has an index
  inside the processed quiz's question list and is the correct answer of that question.
\<close>

theorem challenge_mode_only_correct_answers:
  assumes "s = run (initialState g) events" and "restartOnIncorrect (quizSettings s)"
    and "processedQuiz s = Some pq" and "a \<in> set (userAnswers s)"
  shows "\<exists>q. arrayGet (questions pq) (questionIndex a) = Some q
            \<and> selectedAnswer a = correctAnswer q"
proof -
  have inv: "sessionInv s" unfolding assms(1) by (rule sessionInv_reachable)
  from sessionInv_attempt(2) [OF inv assms(3)] assms(2,4)
  show ?thesis by (simp add: answersInv_def arrayGet_def)
qed

theorem challenge_mode_only_correct_answers_witness:
  "\<lparr>questionIndex = 0, selectedAnswer = ''yes'', isCorrect = None\<rparr>
      \<in> set (userAnswers demoChallengeSession)
   \<and> (\<exists>q. arrayGet (questions demoQuizA) 0 = Some q \<and> ''yes'' = correctAnswer q)"
proof -
  have m: "\<lparr>questionIndex = 0, selectedAnswer = ''yes'', isCorrect = None\<rparr>
      \<in> set (userAnswers demoChallengeSession)"
    by (simp add: demoChallengeSession_eval(4))
  from challenge_mode_only_correct_answers
         [OF demoChallengeSession_def demoChallengeSession_eval(2,3) m] m
  show ?thesis by simp
qed

section \<open>Rounding to double precision\<close>

lemma roundTiesToEven_near: "\<bar>of_int (roundTiesToEven y) - y\<bar> \<le> 1 / 2"
proof -
  define f where "f = \<lfloor>y\<rfloor>"
  have b: "of_int f \<le> y" "y < of_int f + 1" unfolding f_def by linarith+
  show ?thesis
    unfolding roundTiesToEven_def Let_def f_def [symmetric]
    using b by (auto simp: abs_if)
qed

lemma roundTiesToEven_nonneg: "0 \<le> y \<Longrightarrow> 0 \<le> roundTiesToEven y"
  by (auto simp: roundTiesToEven_def Let_def)

lemma binaryExponent_le:
  assumes "x \<noteq> 0"
  shows "2 powi (binaryExponent x) \<le> \<bar>x\<bar>"
proof -
  obtain a b where q: "quotient_of \<bar>x\<bar> = (a, b)" by (cases "quotient_of \<bar>x\<bar>")
  then have b: "0 < b" and x: "\<bar>x\<bar> = of_int a / of_int b"
    by (auto simp: quotient_of_denom_pos quotient_of_div)
  from assms have "0 < \<bar>x\<bar>" by simp
  with x b have a: "0 < a" by (simp add: zero_less_divide_iff)
  let ?e0 = "bitlen a - bitlen b"
  show ?thesis
  proof (cases "\<bar>x\<bar> < 2 powi ?e0")
    case False
    with q show ?thesis by (simp add: binaryExponent_def)
  next
    case True
    from bitlen_bounds [OF a] have la: "2 ^ nat (bitlen a - 1) \<le> a" by simp
    from bitlen_bounds [OF b] have lb: "b < 2 ^ nat (bitlen b)" by simp
    from a have la1: "1 \<le> bitlen a" by (simp add: bitlen_alt_def)
    have lb0: "0 \<le> bitlen b" by (rule bitlen_nonneg)
    have "(2::rat) powi (?e0 - 1) = 2 powi (bitlen a - 1) / 2 powi (bitlen b)"
      by (simp add: power_int_diff)
    also have "\<dots> = 2 ^ nat (bitlen a - 1) / 2 ^ nat (bitlen b)"
      using la1 lb0 by (simp add: power_int_def)
    also have "\<dots> \<le> of_int a / 2 ^ nat (bitlen b)"
    proof -
      from la have "(of_int (2 ^ nat (bitlen a - 1)) :: rat) \<le> of_int a"
        by (simp only: of_int_le_iff)
      then show ?thesis by (simp add: divide_right_mono)
    qed
    also have "\<dots> \<le> of_int a / of_int b"
    proof -
      from lb have "(of_int b :: rat) \<le> of_int (2 ^ nat (bitlen b))"
        by (simp only: of_int_le_iff)
      with a b show ?thesis by (simp add: frac_le)
    qed
    finally show ?thesis using True q x by (simp add: binaryExponent_def)
  qed
qed

lemma binary64_nonneg: "0 \<le> x \<Longrightarrow> 0 \<le> binary64 x"
  by (simp add: binary64_def Let_def roundTiesToEven_nonneg)

lemma binary64_upper:
  assumes "0 < x"
  shows "binary64 x \<le> x + x / 2 ^ 53"
proof -
  let ?e = "binaryExponent x"
  let ?u = "(2::rat) powi (?e - 52)"
  have u: "0 < ?u" by simp
  from assms have x0: "x \<noteq> 0" by simp
  have "of_int (roundTiesToEven (x / ?u)) - x / ?u \<le> 1 / 2"
    using roundTiesToEven_near [of "x / ?u"] by linarith
  then have "(of_int (roundTiesToEven (x / ?u)) - x / ?u) * ?u \<le> 1 / 2 * ?u"
    using u by (simp only: mult_le_cancel_right_pos)
  then have "of_int (roundTiesToEven (x / ?u)) * ?u \<le> x + ?u / 2"
    using u by (simp add: algebra_simps)
  moreover have "?u / 2 = 2 powi ?e / 2 ^ 53"
    by (simp add: power_int_diff)
  moreover have "2 powi ?e / 2 ^ 53 \<le> x / 2 ^ 53"
    using binaryExponent_le [OF x0] assms by (simp add: divide_right_mono)
  ultimately show ?thesis using x0 by (simp add: binary64_def Let_def)
qed

text \<open>
  The index that the shuffle draws for position \<open>i\<close> is at most \<open>i\<close>, also after the
  rounding of the product \<open>Math.random() * (i + 1)\<close>.
\<close>

lemma randomIndex_le:
  assumes "0 \<le> r" "r \<le> 1 - 1 / 2 ^ 53"
  shows "randomIndex r i \<le> i"
proof -
  let ?n = "of_nat (i + 1) :: rat"
  have n: "0 < ?n" by simp
  have lt: "binary64 (r * ?n) < ?n"
  proof (cases "r = 0")
    case True
    then show ?thesis by (simp add: binary64_def)
  next
    case False
    with assms(1) n have x: "0 < r * ?n" by simp
    have "binary64 (r * ?n) \<le> r * ?n + r * ?n / 2 ^ 53" using x by (rule binary64_upper)
    also have "\<dots> = r * (1 + 1 / 2 ^ 53) * ?n" by (simp add: algebra_simps)
    also have "\<dots> \<le> (1 - 1 / 2 ^ 53) * (1 + 1 / 2 ^ 53) * ?n"
    proof (rule mult_right_mono)
      show "r * (1 + 1 / 2 ^ 53) \<le> (1 - 1 / 2 ^ 53) * (1 + 1 / 2 ^ 53)"
        using assms(2) by (rule mult_right_mono) simp
      show "0 \<le> ?n" by simp
    qed
    also have "\<dots> < 1 * ?n"
    proof (rule mult_strict_right_mono)
      show "(1 - 1 / 2 ^ 53) * (1 + 1 / 2 ^ 53) < (1::rat)" by simp
      show "0 < ?n" by (rule n)
    qed
    finally show ?thesis by simp
  qed
  have "\<lfloor>binary64 (r * ?n)\<rfloor> < int (i + 1)"
    using lt by (simp add: floor_less_iff)
  then show ?thesis
    by (simp add: randomIndex_def fmul_def Math_floor_def)
qed

section \<open>Shuffling: properties\<close>

lemma validRandom_Math_random:
  assumes "validRandom g" "Math_random g = (r, g')"
  shows "0 \<le> r" "r \<le> 1 - 1 / 2 ^ 53" "validRandom g'"
proof -
  from assms(2) have r: "r = g 0" and g': "g' = (\<lambda>n. g (Suc n))"
    by (simp_all add: Math_random_def)
  from assms(1) show "0 \<le> r" "r \<le> 1 - 1 / 2 ^ 53" "validRandom g'"
    unfolding r g' validRandom_def by blast+
qed

lemma length_swap [simp]: "length (swap a i j) = length a"
  by (simp add: swap_def)

lemma mset_swap_array: "i < length a \<Longrightarrow> j < length a \<Longrightarrow> mset (swap a i j) = mset a"
  by (simp add: swap_def mset_swap)

lemma map_swap: "i < length a \<Longrightarrow> j < length a \<Longrightarrow> swap (map f a) i j = map f (swap a i j)"
  by (simp add: swap_def map_update)

lemma length_shuffleLoop [simp]: "length (fst (shuffleLoop k a g)) = length a"
  by (induction k arbitrary: a g) (simp_all add: Let_def split: prod.split)

lemma shuffleLoop_props:
  "validRandom g \<Longrightarrow> k < length a \<Longrightarrow>
     mset (fst (shuffleLoop k a g)) = mset a
   \<and> validRandom (snd (shuffleLoop k a g))
   \<and> shuffleLoop k (map f a) g = (map f (fst (shuffleLoop k a g)), snd (shuffleLoop k a g))"
proof (induction k arbitrary: a g)
  case 0
  then show ?case by simp
next
  case (Suc k)
  obtain r g' where d: "Math_random g = (r, g')" by (cases "Math_random g")
  from validRandom_Math_random [OF Suc.prems(1) d]
  have r: "0 \<le> r" "r \<le> 1 - 1 / 2 ^ 53" and g': "validRandom g'" by simp_all
  from randomIndex_le [OF r, of "Suc k"] Suc.prems(2)
  have j: "randomIndex r (Suc k) < length a" by simp
  from Suc.prems(2) have k: "k < length (swap a (Suc k) (randomIndex r (Suc k)))" by simp
  from Suc.IH [OF g' k] Suc.prems(2) j show ?case
    by (simp add: d mset_swap_array map_swap)
qed

lemma length_shuffleArray [simp]: "length (fst (shuffleArray a g)) = length a"
  by (simp add: shuffleArray_def)

lemma shuffleArray_props:
  assumes "validRandom g"
  shows "mset (fst (shuffleArray a g)) = mset a"
    and "validRandom (snd (shuffleArray a g))"
    and "shuffleArray (map f a) g = (map f (fst (shuffleArray a g)), snd (shuffleArray a g))"
proof -
  have "mset (fst (shuffleArray a g)) = mset a
   \<and> validRandom (snd (shuffleArray a g))
   \<and> shuffleArray (map f a) g = (map f (fst (shuffleArray a g)), snd (shuffleArray a g))"
  proof (cases "a = []")
    case True
    with assms show ?thesis by (simp add: shuffleArray_def)
  next
    case False
    then have k: "length a - 1 < length a" by (cases a) simp_all
    from shuffleLoop_props [OF assms k, of f] show ?thesis by (simp add: shuffleArray_def)
  qed
  then show "mset (fst (shuffleArray a g)) = mset a"
    and "validRandom (snd (shuffleArray a g))"
    and "shuffleArray (map f a) g = (map f (fst (shuffleArray a g)), snd (shuffleArray a g))"
    by simp_all
qed

lemma shuffleArray_positions:
  assumes "validRandom g"
  shows "fst (shuffleArray a g) = map (\<lambda>k. a ! k) (shuffledPositions (length a) g)"
    and "mset (shuffledPositions n g) = mset [0..<n]"
    and "length (shuffledPositions n g) = n"
proof -
  have "shuffleArray (map (\<lambda>k. a ! k) [0..<length a]) g
      = (map (\<lambda>k. a ! k) (fst (shuffleArray [0..<length a] g)), snd (shuffleArray [0..<length a] g))"
    using assms by (rule shuffleArray_props(3))
  then show "fst (shuffleArray a g) = map (\<lambda>k. a ! k) (shuffledPositions (length a) g)"
    by (simp add: map_nth shuffledPositions_def)
  show "mset (shuffledPositions n g) = mset [0..<n]"
    unfolding shuffledPositions_def using assms by (rule shuffleArray_props(1))
  show "length (shuffledPositions n g) = n"
    by (simp add: shuffledPositions_def)
qed

lemma sameContent_refl [simp]: "sameContent q q"
  by (simp add: sameContent_def)

lemma length_renumber [simp]: "length (renumber qs) = length qs"
  by (simp add: renumber_def)

lemma nth_renumber: "k < length qs \<Longrightarrow> renumber qs ! k = (qs ! k)\<lparr>questionNumber := int k + 1\<rparr>"
  by (simp add: renumber_def nth_enumerate_eq)

lemma mapShuffleOptions_props:
  "validRandom g \<Longrightarrow>
     list_all2 (\<lambda>q' q. questionNumber q' = questionNumber q \<and> sameContent q' q)
       (fst (mapShuffleOptions qs g)) qs
   \<and> validRandom (snd (mapShuffleOptions qs g))"
proof (induction qs arbitrary: g)
  case Nil
  then show ?case by simp
next
  case (Cons q qs)
  obtain so g' where s: "shuffleArray (options q) g = (so, g')" by (cases "shuffleArray (options q) g")
  from shuffleArray_props(1,2) [OF Cons.prems, of "options q"] s
  have so: "mset so = mset (options q)" and g': "validRandom g'" by simp_all
  obtain rest g'' where r: "mapShuffleOptions qs g' = (rest, g'')" by (cases "mapShuffleOptions qs g'")
  from Cons.IH [OF g'] r
  have "list_all2 (\<lambda>q' q. questionNumber q' = questionNumber q \<and> sameContent q' q) rest qs"
    "validRandom g''" by simp_all
  moreover from so have "sameContent (q\<lparr>options := so\<rparr>) q"
    by (simp add: sameContent_def)
  ultimately show ?case by (simp add: s r)
qed

lemma processQuizWithSettings_positions:
  assumes "validRandom g"
  obtains p where
    "mset p = mset [0..<length (questions qz)]"
    "\<not> shuffleQuestions settings \<Longrightarrow> p = [0..<length (questions qz)]"
    "length (questions (fst (processQuizWithSettings qz settings g))) = length (questions qz)"
    "\<And>k. k < length (questions qz) \<Longrightarrow>
       sameContent (questions (fst (processQuizWithSettings qz settings g)) ! k)
         (questions qz ! (p ! k))
     \<and> questionNumber (questions (fst (processQuizWithSettings qz settings g)) ! k)
         = (if shuffleQuestions settings then int k + 1
            else questionNumber (questions qz ! (p ! k)))
     \<and> (\<not> shuffleAnswers settings \<longrightarrow>
          options (questions (fst (processQuizWithSettings qz settings g)) ! k)
            = options (questions qz ! (p ! k)))"
    "validRandom (snd (processQuizWithSettings qz settings g))"
proof -
  let ?qs = "questions qz"
  let ?N = "length ?qs"
  define p where "p = (if shuffleQuestions settings then shuffledPositions ?N g else [0..<?N])"
  define qs1 where "qs1 = (if shuffleQuestions settings then renumber (fst (shuffleArray ?qs g)) else ?qs)"
  define g1 where "g1 = (if shuffleQuestions settings then snd (shuffleArray ?qs g) else g)"
  define qs2 where "qs2 = (if shuffleAnswers settings then fst (mapShuffleOptions qs1 g1) else qs1)"
  define g2 where "g2 = (if shuffleAnswers settings then snd (mapShuffleOptions qs1 g1) else g1)"
  have res: "processQuizWithSettings qz settings g = (qz\<lparr>questions := qs2\<rparr>, g2)"
    by (simp add: processQuizWithSettings_def qs1_def g1_def qs2_def g2_def Let_def
             split: prod.split)
  have mp: "mset p = mset [0..<?N]" and lp: "length p = ?N"
    using shuffleArray_positions(2,3) [OF assms, of ?N] by (simp_all add: p_def)
  have vg1: "validRandom g1"
    using assms shuffleArray_props(2) [OF assms, of ?qs] by (simp add: g1_def)
  have l1: "length qs1 = ?N" by (simp add: qs1_def)
  have n1: "qs1 ! k = (?qs ! (p ! k))\<lparr>questionNumber :=
               (if shuffleQuestions settings then int k + 1 else questionNumber (?qs ! (p ! k)))\<rparr>"
    if "k < ?N" for k
  proof (cases "shuffleQuestions settings")
    case True
    from that have "renumber (fst (shuffleArray ?qs g)) ! k
        = (fst (shuffleArray ?qs g) ! k)\<lparr>questionNumber := int k + 1\<rparr>"
      by (simp add: nth_renumber)
    moreover have "fst (shuffleArray ?qs g) ! k = ?qs ! (shuffledPositions ?N g ! k)"
      using that shuffleArray_positions(1) [OF assms, of ?qs]
        shuffleArray_positions(3) [OF assms, of ?N] by simp
    ultimately show ?thesis using True by (simp add: qs1_def p_def)
  next
    case False
    with that show ?thesis by (simp add: qs1_def p_def)
  qed
  have rel: "list_all2 (\<lambda>q' q. questionNumber q' = questionNumber q \<and> sameContent q' q) qs2 qs1
      \<and> validRandom g2 \<and> (\<not> shuffleAnswers settings \<longrightarrow> qs2 = qs1)"
  proof (cases "shuffleAnswers settings")
    case True
    with mapShuffleOptions_props [OF vg1, of qs1] show ?thesis by (simp add: qs2_def g2_def)
  next
    case False
    with vg1 show ?thesis by (simp add: qs2_def g2_def list_all2_same)
  qed
  then have l2: "length qs2 = ?N" using l1 by (auto dest: list_all2_lengthD)
  have n2: "sameContent (qs2 ! k) (?qs ! (p ! k))
          \<and> questionNumber (qs2 ! k)
              = (if shuffleQuestions settings then int k + 1 else questionNumber (?qs ! (p ! k)))
          \<and> (\<not> shuffleAnswers settings \<longrightarrow> options (qs2 ! k) = options (?qs ! (p ! k)))"
    if "k < ?N" for k
  proof -
    from rel have "list_all2 (\<lambda>q' q. questionNumber q' = questionNumber q \<and> sameContent q' q)
        qs2 qs1" by blast
    from list_all2_nthD [OF this, of k] that l2
    have "questionNumber (qs2 ! k) = questionNumber (qs1 ! k) \<and> sameContent (qs2 ! k) (qs1 ! k)"
      by simp
    moreover from rel have "\<not> shuffleAnswers settings \<longrightarrow> options (qs2 ! k) = options (qs1 ! k)"
      by auto
    ultimately show ?thesis
      unfolding n1 [OF that] by (simp add: sameContent_def)
  qed
  show thesis
  proof (rule that [of p])
    show "mset p = mset [0..<?N]" by (rule mp)
    show "p = [0..<?N]" if "\<not> shuffleQuestions settings" using that by (simp add: p_def)
    show "length (questions (fst (processQuizWithSettings qz settings g))) = ?N"
      by (simp add: res l2)
    show "validRandom (snd (processQuizWithSettings qz settings g))"
      using rel by (simp add: res)
    show "sameContent (questions (fst (processQuizWithSettings qz settings g)) ! k)
         (questions qz ! (p ! k))
     \<and> questionNumber (questions (fst (processQuizWithSettings qz settings g)) ! k)
         = (if shuffleQuestions settings then int k + 1
            else questionNumber (questions qz ! (p ! k)))
     \<and> (\<not> shuffleAnswers settings \<longrightarrow>
          options (questions (fst (processQuizWithSettings qz settings g)) ! k)
            = options (questions qz ! (p ! k)))"
      if "k < length (questions qz)" for k
      using n2 [OF that] by (simp add: res)
  qed
qed

lemma processQuizWithSettings_names:
  "quiz (fst (processQuizWithSettings qz settings g)) = quiz qz"
  "topic (fst (processQuizWithSettings qz settings g)) = topic qz"
  by (simp_all add: processQuizWithSettings_def Let_def split: prod.split)

lemma processQuizWithSettings_permutation:
  assumes "validRandom g" and "shuffleQuestions settings"
  shows "\<exists>p. mset p = mset [0..<length (questions qz)]
     \<and> (let pq = fst (processQuizWithSettings qz settings g); N = length (questions qz)
        in quiz pq = quiz qz \<and> topic pq = topic qz \<and> length (questions pq) = N
         \<and> map questionNumber (questions pq) = [1..int N]
         \<and> (\<forall>k < N. sameContent (questions pq ! k) (questions qz ! (p ! k))
                    \<and> questionNumber (questions pq ! k) = int k + 1
                    \<and> (\<not> shuffleAnswers settings \<longrightarrow>
                         options (questions pq ! k) = options (questions qz ! (p ! k)))))"
proof -
  let ?pq = "fst (processQuizWithSettings qz settings g)"
  let ?N = "length (questions qz)"
  from assms(1) obtain p where mp: "mset p = mset [0..<?N]"
    and len: "length (questions ?pq) = ?N"
    and nth: "\<And>k. k < ?N \<Longrightarrow>
       sameContent (questions ?pq ! k) (questions qz ! (p ! k))
     \<and> questionNumber (questions ?pq ! k)
         = (if shuffleQuestions settings then int k + 1
            else questionNumber (questions qz ! (p ! k)))
     \<and> (\<not> shuffleAnswers settings \<longrightarrow>
          options (questions ?pq ! k) = options (questions qz ! (p ! k)))"
    by (rule processQuizWithSettings_positions [of g qz settings]) blast
  have num: "map questionNumber (questions ?pq) = [1..int ?N]"
  proof (rule nth_equalityI)
    show "length (map questionNumber (questions ?pq)) = length [1..int ?N]" by (simp add: len)
    fix k assume "k < length (map questionNumber (questions ?pq))"
    then have k: "k < ?N" by (simp add: len)
    with nth [OF k] assms(2) show "map questionNumber (questions ?pq) ! k = [1..int ?N] ! k"
      by (simp add: len)
  qed
  have "\<forall>k < ?N. sameContent (questions ?pq ! k) (questions qz ! (p ! k))
                    \<and> questionNumber (questions ?pq ! k) = int k + 1
                    \<and> (\<not> shuffleAnswers settings \<longrightarrow>
                         options (questions ?pq ! k) = options (questions qz ! (p ! k)))"
    using nth assms(2) by simp
  with mp len num show ?thesis
    unfolding Let_def
    by (intro exI [of _ p]) (simp add: processQuizWithSettings_names)
qed

lemma validRandom_demoRandom: "validRandom demoRandom"
  by (simp add: validRandom_def demoRandom_def)

lemma demo_shuffled:
  "map questionText (questions (fst (processQuizWithSettings demoQuizB shuffleBoth demoRandom)))
     = [''b3'', ''b2'', ''b1'']"
  "map options (questions (fst (processQuizWithSettings demoQuizB shuffleBoth demoRandom)))
     = [[''maybe'', ''no'', ''yes''], [''maybe'', ''no'', ''yes''], [''maybe'', ''no'', ''yes'']]"
  by code_simp+

text \<open>
  C3. With answer shuffle on, for every random source, every question of the processed quiz
  is a question of the original (the one at the same place when question shuffle is off,
  the one at place \<open>p ! k\<close> of a permutation otherwise) with the same text, image and
  correct answer and with an option list that is a permutation of the original one; so a
  correct answer that was among the options still is.
\<close>

theorem processQuizWithSettings_shuffleAnswers:
  assumes "validRandom g" and "shuffleAnswers settings"
  shows "\<exists>p. mset p = mset [0..<length (questions qz)]
     \<and> (\<not> shuffleQuestions settings \<longrightarrow> p = [0..<length (questions qz)])
     \<and> (let pq = fst (processQuizWithSettings qz settings g); N = length (questions qz)
        in length (questions pq) = N
         \<and> (\<forall>k < N. mset (options (questions pq ! k)) = mset (options (questions qz ! (p ! k)))
                    \<and> correctAnswer (questions pq ! k) = correctAnswer (questions qz ! (p ! k))
                    \<and> questionText (questions pq ! k) = questionText (questions qz ! (p ! k))
                    \<and> image_opt (questions pq ! k) = image_opt (questions qz ! (p ! k))
                    \<and> (correctAnswer (questions qz ! (p ! k)) \<in> set (options (questions qz ! (p ! k)))
                        \<longrightarrow> correctAnswer (questions pq ! k) \<in> set (options (questions pq ! k)))))"
proof -
  let ?pq = "fst (processQuizWithSettings qz settings g)"
  let ?N = "length (questions qz)"
  from assms(1) obtain p where mp: "mset p = mset [0..<?N]"
    and id: "\<not> shuffleQuestions settings \<Longrightarrow> p = [0..<?N]"
    and len: "length (questions ?pq) = ?N"
    and nth: "\<And>k. k < ?N \<Longrightarrow>
       sameContent (questions ?pq ! k) (questions qz ! (p ! k))
     \<and> questionNumber (questions ?pq ! k)
         = (if shuffleQuestions settings then int k + 1
            else questionNumber (questions qz ! (p ! k)))
     \<and> (\<not> shuffleAnswers settings \<longrightarrow>
          options (questions ?pq ! k) = options (questions qz ! (p ! k)))"
    by (rule processQuizWithSettings_positions [of g qz settings]) blast
  have each: "mset (options (questions ?pq ! k)) = mset (options (questions qz ! (p ! k)))
                    \<and> correctAnswer (questions ?pq ! k) = correctAnswer (questions qz ! (p ! k))
                    \<and> questionText (questions ?pq ! k) = questionText (questions qz ! (p ! k))
                    \<and> image_opt (questions ?pq ! k) = image_opt (questions qz ! (p ! k))
                    \<and> (correctAnswer (questions qz ! (p ! k)) \<in> set (options (questions qz ! (p ! k)))
                        \<longrightarrow> correctAnswer (questions ?pq ! k) \<in> set (options (questions ?pq ! k)))"
    if "k < ?N" for k
  proof -
    from nth [OF that] have sc: "sameContent (questions ?pq ! k) (questions qz ! (p ! k))" by blast
    then have "set (options (questions ?pq ! k)) = set (options (questions qz ! (p ! k)))"
      unfolding sameContent_def by (metis mset_eq_setD)
    with sc show ?thesis by (simp add: sameContent_def)
  qed
  from mp id len each
  have "mset p = mset [0..<?N] \<and> (\<not> shuffleQuestions settings \<longrightarrow> p = [0..<?N])
     \<and> (length (questions ?pq) = ?N
         \<and> (\<forall>k < ?N. mset (options (questions ?pq ! k)) = mset (options (questions qz ! (p ! k)))
                    \<and> correctAnswer (questions ?pq ! k) = correctAnswer (questions qz ! (p ! k))
                    \<and> questionText (questions ?pq ! k) = questionText (questions qz ! (p ! k))
                    \<and> image_opt (questions ?pq ! k) = image_opt (questions qz ! (p ! k))
                    \<and> (correctAnswer (questions qz ! (p ! k)) \<in> set (options (questions qz ! (p ! k)))
                        \<longrightarrow> correctAnswer (questions ?pq ! k) \<in> set (options (questions ?pq ! k)))))"
    by blast
  then show ?thesis unfolding Let_def by (rule exI)
qed

theorem processQuizWithSettings_shuffleAnswers_witness:
  "validRandom demoRandom \<and> shuffleAnswers shuffleBoth
   \<and> correctAnswer (questions (fst (processQuizWithSettings demoQuizB shuffleBoth demoRandom)) ! 0)
        \<in> set (options (questions (fst (processQuizWithSettings demoQuizB shuffleBoth demoRandom)) ! 0))
   \<and> correctAnswer (questions (fst (processQuizWithSettings demoQuizB shuffleBoth demoRandom)) ! 1)
        \<in> set (options (questions (fst (processQuizWithSettings demoQuizB shuffleBoth demoRandom)) ! 1))
   \<and> correctAnswer (questions (fst (processQuizWithSettings demoQuizB shuffleBoth demoRandom)) ! 2)
        \<in> set (options (questions (fst (processQuizWithSettings demoQuizB shuffleBoth demoRandom)) ! 2))
   \<and> map options (questions (fst (processQuizWithSettings demoQuizB shuffleBoth demoRandom)))
     = [[''maybe'', ''no'', ''yes''], [''maybe'', ''no'', ''yes''], [''maybe'', ''no'', ''yes'']]"
proof -
  have s: "shuffleAnswers shuffleBoth" by (simp add: shuffleBoth_def)
  have n: "length (questions demoQuizB) = 3" by (simp add: demoQuizB_def)
  let ?pq = "fst (processQuizWithSettings demoQuizB shuffleBoth demoRandom)"
  from processQuizWithSettings_shuffleAnswers [OF validRandom_demoRandom s, of demoQuizB]
  obtain p where mp: "mset p = mset [0..<3]"
    and each: "\<forall>k < 3.
        (correctAnswer (questions demoQuizB ! (p ! k)) \<in> set (options (questions demoQuizB ! (p ! k)))
           \<longrightarrow> correctAnswer (questions ?pq ! k) \<in> set (options (questions ?pq ! k)))"
    unfolding Let_def n by blast
  have ok: "correctAnswer (questions demoQuizB ! j) \<in> set (options (questions demoQuizB ! j))"
    if "j < 3" for j
    using that by (auto simp: demoQuizB_def demoQuestion_def less_Suc_eq numeral_3_eq_3)
  have mem: "correctAnswer (questions ?pq ! k) \<in> set (options (questions ?pq ! k))" if "k < 3" for k
  proof -
    from mp have "set p = {0..<3}" by (metis mset_eq_setD set_upt)
    moreover from mp have "length p = 3" by (metis mset_eq_length length_upt diff_zero)
    ultimately have "p ! k < 3" using that by (metis atLeastLessThan_iff nth_mem)
    with ok each that show ?thesis by blast
  qed
  from mem [of 0] mem [of 1] mem [of 2] validRandom_demoRandom s demo_shuffled(2)
  show ?thesis by simp
qed

section \<open>The percentage\<close>

text \<open>
  C1 at a session with 40 questions of which 23 are answered correctly. The exact value of
  \<open>100 * 23 / 40\<close> is 57.5, which \<open>Math.round\<close> takes to 58. The code divides first:
  the double nearest to \<open>23 / 40\<close> is below 0.575, its product with 100 rounds to a
  double below 57.5, and \<open>Math.round\<close> takes that to 57, in both components. The same
  expression takes 29 of 200 (exactly 14.5) to 14 but 1 of 8 (exactly 12.5) to 13, so no
  rule for ties makes it the rounding of the exact percentage.
\<close>

theorem calculateResults_percentage_23_of_40:
  "currentView roundingSession = ViewResults
   \<and> calculateResults roundingSession
       = \<lparr>correctAnswers = 23, totalQuestions = 40, answeredQuestions = 40, percentage = 57,
          duration = 90\<rparr>
   \<and> basicPercentage (calculateResultsBasic basicAnswers40 (Some 0) (Some 90000)) = Some 57
   \<and> (100 * 23 / 40 :: rat) = 57 + 1 / 2
   \<and> Math_round (100 * 23 / 40) = 58
   \<and> Math_round (fmul (fdiv 29 200) 100) = 14 \<and> (100 * 29 / 200 :: rat) = 14 + 1 / 2
   \<and> Math_round (fmul (fdiv 1 8) 100) = 13 \<and> (100 * 1 / 8 :: rat) = 12 + 1 / 2"
  by code_simp

section \<open>The store: properties\<close>

lemma extends_iff: "extends h h' \<longleftrightarrow> (\<exists>zs. h' = h @ zs)"
proof
  assume "extends h h'"
  then have "h' = h @ drop (length h) h'"
    by (metis append_take_drop_id extends_def)
  then show "\<exists>zs. h' = h @ zs" ..
next
  assume "\<exists>zs. h' = h @ zs"
  then show "extends h h'" by (auto simp: extends_def)
qed

lemma extends_refl [simp]: "extends h h"
  by (simp add: extends_def)

lemma extends_append [simp]: "extends h (h @ zs)"
  by (simp add: extends_def)

lemma extends_trans: "extends a b \<Longrightarrow> extends b c \<Longrightarrow> extends a c"
  by (auto simp: extends_iff)

lemma extends_nth: "extends h h' \<Longrightarrow> k < length h \<Longrightarrow> h' ! k = h ! k"
  by (auto simp: extends_iff nth_append)

lemma extends_length: "extends h h' \<Longrightarrow> length h \<le> length h'"
  by (simp add: extends_def)

lemma shuffleLoopH_eq:
  "shuffled < length h \<Longrightarrow>
     shuffleLoopH k shuffled h g
       = (h[shuffled := fst (shuffleLoop k (h ! shuffled) g)],
          snd (shuffleLoop k (h ! shuffled) g))"
proof (induction k arbitrary: h g)
  case 0
  then show ?case by simp
next
  case (Suc k)
  obtain r g' where d: "Math_random g = (r, g')" by (cases "Math_random g")
  let ?h' = "h[shuffled := swap (h ! shuffled) (Suc k) (randomIndex r (Suc k))]"
  from Suc.prems have l: "shuffled < length ?h'" by simp
  from Suc.IH [OF l, of g'] Suc.prems show ?case
    by (simp add: d)
qed

lemma shuffleArrayH_eq:
  "array < length h \<Longrightarrow>
     shuffleArrayH h array g
       = ((length h, h @ [fst (shuffleArray (h ! array) g)]), snd (shuffleArray (h ! array) g))"
proof -
  assume a: "array < length h"
  have l: "length h < length (h @ [h ! array])" by simp
  have n: "(h @ [h ! array]) ! length h = h ! array" by simp
  show ?thesis
    unfolding shuffleArrayH_def copyArray_def
    by (simp add: shuffleLoopH_eq [OF l] n shuffleArray_def)
qed

lemma storeExtends_refl [simp]: "storeExtends st st"
  by (simp add: storeExtends_def)

lemma storeExtends_trans: "storeExtends a b \<Longrightarrow> storeExtends b c \<Longrightarrow> storeExtends a c"
  unfolding storeExtends_def by (blast intro: extends_trans)

lemma wfStore_questionObject:
  "wfStore st \<Longrightarrow> r < length (questionObjects st) \<Longrightarrow>
     objOptions (questionObjects st ! r) < length (stringArrays st)"
  by (simp add: wfStore_def list_all_length)

lemma wfStore_questionArray:
  "wfStore st \<Longrightarrow> a < length (questionArrays st) \<Longrightarrow>
     list_all (\<lambda>q. q < length (questionObjects st)) (questionArrays st ! a)"
  by (simp add: wfStore_def list_all_length)

lemma wfStore_quizObject:
  "wfStore st \<Longrightarrow> r < length (quizObjects st) \<Longrightarrow>
     objQuestions (quizObjects st ! r) < length (questionArrays st)"
  by (simp add: wfStore_def list_all_length)

lemma list_all_less_mono:
  "list_all (\<lambda>q. q < n) xs \<Longrightarrow> n \<le> m \<Longrightarrow> list_all (\<lambda>q. q < (m::nat)) xs"
  by (induction xs) auto

lemma wfStore_add_strings:
  "wfStore st \<Longrightarrow> wfStore (st\<lparr>stringArrays := stringArrays st @ [x]\<rparr>)"
  unfolding wfStore_def
  by (auto simp: list_all_iff less_Suc_eq)

lemma wfStore_add_questionObject:
  assumes "wfStore st" "objOptions obj < length (stringArrays st)"
  shows "wfStore (st\<lparr>questionObjects := questionObjects st @ [obj]\<rparr>)"
  using assms unfolding wfStore_def
  by (auto simp: list_all_iff less_Suc_eq)

lemma wfStore_add_questionArray:
  assumes "wfStore st" "list_all (\<lambda>q. q < length (questionObjects st)) elems"
  shows "wfStore (st\<lparr>questionArrays := questionArrays st @ [elems]\<rparr>)"
  using assms unfolding wfStore_def
  by (auto simp: list_all_iff less_Suc_eq)

lemma wfStore_add_quizObject:
  assumes "wfStore st" "objQuestions obj < length (questionArrays st)"
  shows "wfStore (st\<lparr>quizObjects := quizObjects st @ [obj]\<rparr>)"
  using assms unfolding wfStore_def
  by (auto simp: list_all_iff)

lemma readQuestion_extends:
  assumes "storeExtends st st'" "wfStore st" "r < length (questionObjects st)"
  shows "readQuestion st' r = readQuestion st r"
proof -
  from assms(1) have e1: "extends (questionObjects st) (questionObjects st')"
    and e2: "extends (stringArrays st) (stringArrays st')"
    by (simp_all add: storeExtends_def)
  have o: "questionObjects st' ! r = questionObjects st ! r"
    using e1 assms(3) by (rule extends_nth)
  have "stringArrays st' ! objOptions (questionObjects st ! r)
      = stringArrays st ! objOptions (questionObjects st ! r)"
    using e2 wfStore_questionObject [OF assms(2,3)] by (rule extends_nth)
  with o show ?thesis by (simp add: readQuestion_def)
qed

lemma map_readQuestion_extends:
  assumes "storeExtends st st'" "wfStore st" "list_all (\<lambda>q. q < length (questionObjects st)) refs"
  shows "map (readQuestion st') refs = map (readQuestion st) refs"
  using assms(3) readQuestion_extends [OF assms(1,2)]
  by (induction refs) simp_all

lemma readQuiz_extends:
  assumes "storeExtends st st'" "wfStore st" "r < length (quizObjects st)"
  shows "readQuiz st' r = readQuiz st r"
proof -
  from assms(1) have e1: "extends (quizObjects st) (quizObjects st')"
    and e2: "extends (questionArrays st) (questionArrays st')"
    by (simp_all add: storeExtends_def)
  have o: "quizObjects st' ! r = quizObjects st ! r"
    using e1 assms(3) by (rule extends_nth)
  have a: "objQuestions (quizObjects st ! r) < length (questionArrays st)"
    using assms(2,3) by (rule wfStore_quizObject)
  have q: "questionArrays st' ! objQuestions (quizObjects st ! r)
      = questionArrays st ! objQuestions (quizObjects st ! r)"
    using e2 a by (rule extends_nth)
  have m: "map (readQuestion st') (questionArrays st ! objQuestions (quizObjects st ! r))
      = map (readQuestion st) (questionArrays st ! objQuestions (quizObjects st ! r))"
    using assms(1,2) wfStore_questionArray [OF assms(2) a] by (rule map_readQuestion_extends)
  show ?thesis unfolding readQuiz_def Let_def o q m by (rule refl)
qed

lemma mapRenumberS_props:
  assumes "wfStore st" "list_all (\<lambda>q. q < length (questionObjects st)) refs"
  shows "storeExtends st (snd (mapRenumberS refs idx st))
       \<and> wfStore (snd (mapRenumberS refs idx st))
       \<and> list_all (\<lambda>q. q < length (questionObjects (snd (mapRenumberS refs idx st))))
           (fst (mapRenumberS refs idx st))
       \<and> map (readQuestion (snd (mapRenumberS refs idx st))) (fst (mapRenumberS refs idx st))
           = map (\<lambda>(k, q). q\<lparr>questionNumber := int k + 1\<rparr>)
               (enumerate idx (map (readQuestion st) refs))"
  using assms
proof (induction refs arbitrary: idx st)
  case Nil
  then show ?case by simp
next
  case (Cons q rest)
  let ?obj = "(questionObjects st ! q)\<lparr>objQuestionNumber := int idx + 1\<rparr>"
  let ?new = "length (questionObjects st)"
  let ?st1 = "st\<lparr>questionObjects := questionObjects st @ [?obj]\<rparr>"
  let ?r = "mapRenumberS rest (idx + 1) ?st1"
  from Cons.prems(2) have q: "q < length (questionObjects st)"
    and rest: "list_all (\<lambda>q. q < length (questionObjects st)) rest" by simp_all
  have opt: "objOptions ?obj < length (stringArrays st)"
    using wfStore_questionObject [OF Cons.prems(1) q] by simp
  have wf1: "wfStore ?st1" using Cons.prems(1) opt by (rule wfStore_add_questionObject)
  have ext1: "storeExtends st ?st1" by (simp add: storeExtends_def)
  have rest1: "list_all (\<lambda>q. q < length (questionObjects ?st1)) rest"
    using rest by (rule list_all_less_mono) simp
  from Cons.IH [OF wf1 rest1, of "idx + 1"]
  have ext2: "storeExtends ?st1 (snd ?r)" and wf2: "wfStore (snd ?r)"
    and in2: "list_all (\<lambda>q. q < length (questionObjects (snd ?r))) (fst ?r)"
    and rd2: "map (readQuestion (snd ?r)) (fst ?r)
           = map (\<lambda>(k, q). q\<lparr>questionNumber := int k + 1\<rparr>)
               (enumerate (idx + 1) (map (readQuestion ?st1) rest))"
    by simp_all
  have eq: "mapRenumberS (q # rest) idx st = (?new # fst ?r, snd ?r)"
    by (simp add: Let_def split: prod.split)
  have new1: "?new < length (questionObjects ?st1)" by simp
  from ext2 have "extends (questionObjects ?st1) (questionObjects (snd ?r))"
    unfolding storeExtends_def by blast
  then have "length (questionObjects ?st1) \<le> length (questionObjects (snd ?r))"
    by (rule extends_length)
  with new1 have new2: "?new < length (questionObjects (snd ?r))" by simp
  have rnew: "readQuestion (snd ?r) ?new = (readQuestion st q)\<lparr>questionNumber := int idx + 1\<rparr>"
  proof -
    have "readQuestion (snd ?r) ?new = readQuestion ?st1 ?new"
      using ext2 wf1 new1 by (rule readQuestion_extends)
    also have "\<dots> = (readQuestion st q)\<lparr>questionNumber := int idx + 1\<rparr>"
      by (simp add: readQuestion_def Let_def)
    finally show ?thesis .
  qed
  have rrest: "map (readQuestion ?st1) rest = map (readQuestion st) rest"
    using ext1 Cons.prems(1) rest by (rule map_readQuestion_extends)
  show ?case
    unfolding eq fst_conv snd_conv
    using storeExtends_trans [OF ext1 ext2] wf2 in2 new2 rnew rd2
    by (simp add: rrest)
qed

lemma mapShuffleOptionsS_props:
  assumes "wfStore st" "list_all (\<lambda>q. q < length (questionObjects st)) refs"
  shows "storeExtends st (snd (fst (mapShuffleOptionsS refs st g)))
       \<and> wfStore (snd (fst (mapShuffleOptionsS refs st g)))
       \<and> list_all (\<lambda>q. q < length (questionObjects (snd (fst (mapShuffleOptionsS refs st g)))))
           (fst (fst (mapShuffleOptionsS refs st g)))
       \<and> questionArrays (snd (fst (mapShuffleOptionsS refs st g))) = questionArrays st
       \<and> quizObjects (snd (fst (mapShuffleOptionsS refs st g))) = quizObjects st
       \<and> (map (readQuestion (snd (fst (mapShuffleOptionsS refs st g))))
             (fst (fst (mapShuffleOptionsS refs st g))),
           snd (mapShuffleOptionsS refs st g))
           = mapShuffleOptions (map (readQuestion st) refs) g"
  using assms
proof (induction refs arbitrary: st g)
  case Nil
  then show ?case by simp
next
  case (Cons q rest)
  let ?qo = "questionObjects st ! q"
  let ?so = "fst (shuffleArray (stringArrays st ! objOptions ?qo) g)"
  let ?g' = "snd (shuffleArray (stringArrays st ! objOptions ?qo) g)"
  let ?st1 = "st\<lparr>stringArrays := stringArrays st @ [?so]\<rparr>"
  let ?new = "length (questionObjects st)"
  let ?obj = "?qo\<lparr>objOptions := length (stringArrays st)\<rparr>"
  let ?st2 = "?st1\<lparr>questionObjects := questionObjects ?st1 @ [?obj]\<rparr>"
  let ?r = "mapShuffleOptionsS rest ?st2 ?g'"
  from Cons.prems(2) have q: "q < length (questionObjects st)"
    and rest: "list_all (\<lambda>q. q < length (questionObjects st)) rest" by simp_all
  have opt: "objOptions ?qo < length (stringArrays st)"
    using Cons.prems(1) q by (rule wfStore_questionObject)
  have sh: "shuffleArrayH (stringArrays st) (objOptions ?qo) g
      = ((length (stringArrays st), stringArrays st @ [?so]), ?g')"
    using opt by (rule shuffleArrayH_eq)
  have eq: "mapShuffleOptionsS (q # rest) st g = ((?new # fst (fst ?r), snd (fst ?r)), snd ?r)"
    by (simp add: sh Let_def split: prod.split)
  have wf1: "wfStore ?st1" using Cons.prems(1) by (rule wfStore_add_strings)
  have wf2: "wfStore ?st2" by (rule wfStore_add_questionObject [OF wf1]) simp
  have ext2: "storeExtends st ?st2" by (simp add: storeExtends_def)
  have rest2: "list_all (\<lambda>q. q < length (questionObjects ?st2)) rest"
    using rest by (rule list_all_less_mono) simp
  from Cons.IH [OF wf2 rest2, of ?g']
  have ext3: "storeExtends ?st2 (snd (fst ?r))" and wf3: "wfStore (snd (fst ?r))"
    and in3: "list_all (\<lambda>q. q < length (questionObjects (snd (fst ?r)))) (fst (fst ?r))"
    and qa3: "questionArrays (snd (fst ?r)) = questionArrays st"
    and qz3: "quizObjects (snd (fst ?r)) = quizObjects st"
    and rd3: "(map (readQuestion (snd (fst ?r))) (fst (fst ?r)), snd ?r)
           = mapShuffleOptions (map (readQuestion ?st2) rest) ?g'"
    by simp_all
  have new2: "?new < length (questionObjects ?st2)" by simp
  from ext3 have "extends (questionObjects ?st2) (questionObjects (snd (fst ?r)))"
    unfolding storeExtends_def by blast
  then have "length (questionObjects ?st2) \<le> length (questionObjects (snd (fst ?r)))"
    by (rule extends_length)
  with new2 have new3: "?new < length (questionObjects (snd (fst ?r)))" by simp
  have rnew: "readQuestion (snd (fst ?r)) ?new = (readQuestion st q)\<lparr>options := ?so\<rparr>"
  proof -
    have "readQuestion (snd (fst ?r)) ?new = readQuestion ?st2 ?new"
      using ext3 wf2 new2 by (rule readQuestion_extends)
    also have "\<dots> = (readQuestion st q)\<lparr>options := ?so\<rparr>"
      by (simp add: readQuestion_def Let_def)
    finally show ?thesis .
  qed
  have rrest: "map (readQuestion ?st2) rest = map (readQuestion st) rest"
    using ext2 Cons.prems(1) rest by (rule map_readQuestion_extends)
  have oq: "options (readQuestion st q) = stringArrays st ! objOptions ?qo"
    by (simp add: readQuestion_def Let_def)
  have rd3': "mapShuffleOptions (map (readQuestion st) rest) ?g'
      = (map (readQuestion (snd (fst ?r))) (fst (fst ?r)), snd ?r)"
    using rd3 [unfolded rrest] by (rule sym)
  have fn: "mapShuffleOptions (map (readQuestion st) (q # rest)) g
      = ((readQuestion st q)\<lparr>options := ?so\<rparr>
           # map (readQuestion (snd (fst ?r))) (fst (fst ?r)), snd ?r)"
    by (simp add: oq rd3' Let_def case_prod_beta)
  show ?case
    unfolding eq fst_conv snd_conv fn
    using storeExtends_trans [OF ext2 ext3] wf3 in3 new3 rnew qa3 qz3
    by simp
qed

lemma readQuestion_questionArrays [simp]:
  "readQuestion (st\<lparr>questionArrays := qa\<rparr>) = readQuestion st"
  by (rule ext) (simp add: readQuestion_def)

lemma readQuestion_quizObjects [simp]:
  "readQuestion (st\<lparr>quizObjects := qo\<rparr>) = readQuestion st"
  by (rule ext) (simp add: readQuestion_def)

lemma storeExtends_add_questionArray:
  "storeExtends st (st\<lparr>questionArrays := questionArrays st @ [a]\<rparr>)"
  by (simp add: storeExtends_def)

lemma storeExtends_add_quizObject:
  "storeExtends st (st\<lparr>quizObjects := quizObjects st @ [obj]\<rparr>)"
  by (simp add: storeExtends_def)

lemma renumber_enumerate:
  "map (\<lambda>(k, q). q\<lparr>questionNumber := int k + 1\<rparr>) (enumerate 0 qs) = renumber qs"
  by (simp add: renumber_def)

lemma shuffleArray_in_range:
  assumes "validRandom g" "list_all (\<lambda>q. q < (n::nat)) refs"
  shows "list_all (\<lambda>q. q < n) (fst (shuffleArray refs g))"
proof -
  from shuffleArray_props(1) [OF assms(1), of refs]
  have "set (fst (shuffleArray refs g)) = set refs" by (rule mset_eq_setD)
  with assms(2) show ?thesis by (simp add: list_all_iff)
qed

lemma shuffleQuestionsS_props:
  assumes wf: "wfStore st" and arr: "arr < length (questionArrays st)" and g: "validRandom g"
  shows "storeExtends st (snd (fst (shuffleQuestionsS st arr g)))
       \<and> wfStore (snd (fst (shuffleQuestionsS st arr g)))
       \<and> fst (fst (shuffleQuestionsS st arr g))
           < length (questionArrays (snd (fst (shuffleQuestionsS st arr g))))
       \<and> map (readQuestion (snd (fst (shuffleQuestionsS st arr g))))
           (questionArrays (snd (fst (shuffleQuestionsS st arr g)))
              ! fst (fst (shuffleQuestionsS st arr g)))
           = renumber (fst (shuffleArray (map (readQuestion st) (questionArrays st ! arr)) g))
       \<and> snd (shuffleQuestionsS st arr g)
           = snd (shuffleArray (map (readQuestion st) (questionArrays st ! arr)) g)"
proof -
  let ?refs = "questionArrays st ! arr"
  let ?sh = "fst (shuffleArray ?refs g)"
  let ?g1 = "snd (shuffleArray ?refs g)"
  let ?st1 = "st\<lparr>questionArrays := questionArrays st @ [?sh]\<rparr>"
  let ?m = "mapRenumberS ?sh 0 ?st1"
  let ?st3 = "(snd ?m)\<lparr>questionArrays := questionArrays (snd ?m) @ [fst ?m]\<rparr>"
  have refs: "list_all (\<lambda>q. q < length (questionObjects st)) ?refs"
    using wf arr by (rule wfStore_questionArray)
  have sh: "list_all (\<lambda>q. q < length (questionObjects st)) ?sh"
    using g refs by (rule shuffleArray_in_range)
  have hq: "shuffleArrayH (questionArrays st) arr g
      = ((length (questionArrays st), questionArrays st @ [?sh]), ?g1)"
    using arr by (rule shuffleArrayH_eq)
  have eq: "shuffleQuestionsS st arr g = ((length (questionArrays (snd ?m)), ?st3), ?g1)"
    by (simp add: shuffleQuestionsS_def hq allocQuestionArray_def Let_def case_prod_beta)
  have wf1: "wfStore ?st1" using wf sh by (rule wfStore_add_questionArray)
  have sh1: "list_all (\<lambda>q. q < length (questionObjects ?st1)) ?sh" using sh by simp
  have ext1: "storeExtends st ?st1" by (rule storeExtends_add_questionArray)
  from mapRenumberS_props [OF wf1 sh1, of 0]
  have ext2: "storeExtends ?st1 (snd ?m)" and wf2: "wfStore (snd ?m)"
    and in2: "list_all (\<lambda>q. q < length (questionObjects (snd ?m))) (fst ?m)"
    and rd2: "map (readQuestion (snd ?m)) (fst ?m)
           = map (\<lambda>(k, q). q\<lparr>questionNumber := int k + 1\<rparr>)
               (enumerate 0 (map (readQuestion ?st1) ?sh))"
    by blast+
  have wf3: "wfStore ?st3" using wf2 in2 by (rule wfStore_add_questionArray)
  have ext3: "storeExtends st ?st3"
    using storeExtends_trans [OF ext1 ext2] storeExtends_add_questionArray
    by (rule storeExtends_trans)
  have nat: "shuffleArray (map (readQuestion st) ?refs) g = (map (readQuestion st) ?sh, ?g1)"
    using g by (rule shuffleArray_props(3))
  have rd3: "map (readQuestion ?st3) (questionArrays ?st3 ! length (questionArrays (snd ?m)))
      = renumber (fst (shuffleArray (map (readQuestion st) ?refs) g))"
    using rd2 by (simp add: nat renumber_enumerate)
  show ?thesis
    unfolding eq fst_conv snd_conv
    using ext3 wf3 rd3 by (simp add: nat)
qed

lemma shuffleAnswersS_props:
  assumes wf: "wfStore st" and arr: "arr < length (questionArrays st)"
  shows "storeExtends st (snd (fst (shuffleAnswersS st arr g)))
       \<and> wfStore (snd (fst (shuffleAnswersS st arr g)))
       \<and> fst (fst (shuffleAnswersS st arr g))
           < length (questionArrays (snd (fst (shuffleAnswersS st arr g))))
       \<and> (map (readQuestion (snd (fst (shuffleAnswersS st arr g))))
           (questionArrays (snd (fst (shuffleAnswersS st arr g)))
              ! fst (fst (shuffleAnswersS st arr g))),
          snd (shuffleAnswersS st arr g))
           = mapShuffleOptions (map (readQuestion st) (questionArrays st ! arr)) g"
proof -
  let ?refs = "questionArrays st ! arr"
  let ?m = "mapShuffleOptionsS ?refs st g"
  let ?st2 = "snd (fst ?m)"
  let ?st3 = "?st2\<lparr>questionArrays := questionArrays ?st2 @ [fst (fst ?m)]\<rparr>"
  have refs: "list_all (\<lambda>q. q < length (questionObjects st)) ?refs"
    using wf arr by (rule wfStore_questionArray)
  have eq: "shuffleAnswersS st arr g = ((length (questionArrays ?st2), ?st3), snd ?m)"
    by (simp add: shuffleAnswersS_def allocQuestionArray_def Let_def case_prod_beta)
  from mapShuffleOptionsS_props [OF wf refs, of g]
  have ext2: "storeExtends st ?st2" and wf2: "wfStore ?st2"
    and in2: "list_all (\<lambda>q. q < length (questionObjects ?st2)) (fst (fst ?m))"
    and rd2: "(map (readQuestion ?st2) (fst (fst ?m)), snd ?m)
           = mapShuffleOptions (map (readQuestion st) ?refs) g"
    by blast+
  have wf3: "wfStore ?st3" using wf2 in2 by (rule wfStore_add_questionArray)
  have ext3: "storeExtends st ?st3"
    using ext2 storeExtends_add_questionArray by (rule storeExtends_trans)
  show ?thesis
    unfolding eq fst_conv snd_conv
    using ext3 wf3 rd2 by simp
qed

lemma processQuizWithSettings_phases:
  "processQuizWithSettings qz settings g =
     (let r1 = (if shuffleQuestions settings
                then (renumber (fst (shuffleArray (questions qz) g)),
                      snd (shuffleArray (questions qz) g))
                else (questions qz, g));
          r2 = (if shuffleAnswers settings then mapShuffleOptions (fst r1) (snd r1) else r1)
      in (qz\<lparr>questions := fst r2\<rparr>, snd r2))"
  by (simp add: processQuizWithSettings_def Let_def case_prod_beta)

lemma processQuizWithSettingsS_refines:
  assumes wf: "wfStore st" and qr: "quizRef < length (quizObjects st)" and g: "validRandom g"
  shows "storeExtends st (snd (fst (processQuizWithSettingsS st quizRef settings g)))
       \<and> wfStore (snd (fst (processQuizWithSettingsS st quizRef settings g)))
       \<and> length (quizObjects st) \<le> fst (fst (processQuizWithSettingsS st quizRef settings g))
       \<and> fst (fst (processQuizWithSettingsS st quizRef settings g))
           < length (quizObjects (snd (fst (processQuizWithSettingsS st quizRef settings g))))
       \<and> (readQuiz (snd (fst (processQuizWithSettingsS st quizRef settings g)))
             (fst (fst (processQuizWithSettingsS st quizRef settings g))),
          snd (processQuizWithSettingsS st quizRef settings g))
           = processQuizWithSettings (readQuiz st quizRef) settings g"
proof -
  let ?qo = "quizObjects st ! quizRef"
  let ?refs = "questionArrays st ! objQuestions ?qo"
  let ?qs = "map (readQuestion st) ?refs"
  let ?st0 = "st\<lparr>questionArrays := questionArrays st @ [?refs]\<rparr>"
  let ?arr0 = "length (questionArrays st)"
  define p1 where "p1 = (if shuffleQuestions settings then shuffleQuestionsS ?st0 ?arr0 g
                         else ((?arr0, ?st0), g))"
  define p2 where "p2 = (if shuffleAnswers settings
                         then shuffleAnswersS (snd (fst p1)) (fst (fst p1)) (snd p1) else p1)"
  define r1 where "r1 = (if shuffleQuestions settings
                then (renumber (fst (shuffleArray ?qs g)), snd (shuffleArray ?qs g))
                else (?qs, g))"
  define r2 where "r2 = (if shuffleAnswers settings then mapShuffleOptions (fst r1) (snd r1) else r1)"
  let ?st2 = "snd (fst p2)"
  let ?st3 = "?st2\<lparr>quizObjects := quizObjects ?st2 @ [?qo\<lparr>objQuestions := fst (fst p2)\<rparr>]\<rparr>"
  have eq: "processQuizWithSettingsS st quizRef settings g
      = ((length (quizObjects ?st2), ?st3), snd p2)"
    by (simp add: processQuizWithSettingsS_def copyArray_def p1_def p2_def Let_def case_prod_beta)
  have qref: "objQuestions ?qo < length (questionArrays st)"
    using wf qr by (rule wfStore_quizObject)
  have refs: "list_all (\<lambda>q. q < length (questionObjects st)) ?refs"
    using wf qref by (rule wfStore_questionArray)
  have wf0: "wfStore ?st0" using wf refs by (rule wfStore_add_questionArray)
  have ext0: "storeExtends st ?st0" by (rule storeExtends_add_questionArray)
  have arr0: "?arr0 < length (questionArrays ?st0)" by simp
  have rd0: "map (readQuestion ?st0) (questionArrays ?st0 ! ?arr0) = ?qs" by simp
  have ph1: "storeExtends ?st0 (snd (fst p1)) \<and> wfStore (snd (fst p1))
       \<and> fst (fst p1) < length (questionArrays (snd (fst p1)))
       \<and> (map (readQuestion (snd (fst p1))) (questionArrays (snd (fst p1)) ! fst (fst p1)),
          snd p1) = r1"
  proof (cases "shuffleQuestions settings")
    case True
    from shuffleQuestionsS_props [OF wf0 arr0 g] True show ?thesis
      unfolding p1_def r1_def rd0 by simp
  next
    case False
    with wf0 show ?thesis unfolding p1_def r1_def by simp
  qed
  then have ext1: "storeExtends ?st0 (snd (fst p1))" and wf1: "wfStore (snd (fst p1))"
    and arr1: "fst (fst p1) < length (questionArrays (snd (fst p1)))"
    and rd1: "(map (readQuestion (snd (fst p1))) (questionArrays (snd (fst p1)) ! fst (fst p1)),
          snd p1) = r1"
    by blast+
  have ph2: "storeExtends (snd (fst p1)) ?st2 \<and> wfStore ?st2
       \<and> fst (fst p2) < length (questionArrays ?st2)
       \<and> (map (readQuestion ?st2) (questionArrays ?st2 ! fst (fst p2)), snd p2) = r2"
  proof (cases "shuffleAnswers settings")
    case True
    have f: "map (readQuestion (snd (fst p1))) (questionArrays (snd (fst p1)) ! fst (fst p1)) = fst r1"
      and s: "snd p1 = snd r1"
      using rd1 [symmetric] by simp_all
    from shuffleAnswersS_props [OF wf1 arr1, of "snd p1"] True show ?thesis
      unfolding p2_def r2_def f s by simp
  next
    case False
    with wf1 arr1 rd1 show ?thesis unfolding p2_def r2_def by simp
  qed
  then have ext2: "storeExtends (snd (fst p1)) ?st2" and wf2: "wfStore ?st2"
    and arr2: "fst (fst p2) < length (questionArrays ?st2)"
    and rd2: "(map (readQuestion ?st2) (questionArrays ?st2 ! fst (fst p2)), snd p2) = r2"
    by blast+
  have ext02: "storeExtends st ?st2"
    using storeExtends_trans [OF ext0 ext1] ext2 by (rule storeExtends_trans)
  have ext3: "storeExtends st ?st3"
    using ext02 storeExtends_add_quizObject by (rule storeExtends_trans)
  have wf3: "wfStore ?st3"
    by (rule wfStore_add_quizObject [OF wf2]) (simp add: arr2)
  from ext02 have "extends (quizObjects st) (quizObjects ?st2)"
    unfolding storeExtends_def by blast
  then have len: "length (quizObjects st) \<le> length (quizObjects ?st2)" by (rule extends_length)
  have f2: "map (readQuestion ?st2) (questionArrays ?st2 ! fst (fst p2)) = fst r2"
    and s2: "snd p2 = snd r2"
    using rd2 [symmetric] by simp_all
  have rq: "readQuiz ?st3 (length (quizObjects ?st2)) = (readQuiz st quizRef)\<lparr>questions := fst r2\<rparr>"
    by (simp add: readQuiz_def Let_def f2)
  have fn: "processQuizWithSettings (readQuiz st quizRef) settings g
      = ((readQuiz st quizRef)\<lparr>questions := fst r2\<rparr>, snd r2)"
    unfolding processQuizWithSettings_phases r2_def r1_def
    by (simp add: readQuiz_def Let_def)
  show ?thesis
    unfolding eq fst_conv snd_conv fn
    using ext3 wf3 len rq s2 by simp
qed

lemma demoStore_wf: "wfStore demoStore" "0 < length (quizObjects demoStore)"
  by code_simp+

lemma demoStore_quiz: "readQuiz demoStore 0 = demoQuizB"
  by code_simp

lemma shuffleBoth_questions: "shuffleQuestions shuffleBoth"
  by (simp add: shuffleBoth_def)

text \<open>
  C2. With question shuffle on, for every well-formed store and every random source,
  processing a quiz leaves every array and object of the store as it was, so the original
  quiz reads as before (same question order, same numbers); the result is a new quiz
  object whose value is the one \<open>processQuizWithSettings\<close> computes on values: same name and
  topic, the same number \<open>N\<close> of questions, and a permutation \<open>p\<close> of the positions such
  that its question at place \<open>k\<close> is the original question at place \<open>p ! k\<close> but for its
  number, which is \<open>k + 1\<close> (and for the order of its options when answer shuffle is on
  too); so the numbers are \<open>1..N\<close> in the new order.
\<close>

theorem processQuizWithSettingsS_shuffleQuestions:
  assumes "wfStore st" and "quizRef < length (quizObjects st)"
    and "validRandom g" and "shuffleQuestions settings"
  shows "\<exists>p. mset p = mset [0..<length (questions (readQuiz st quizRef))]
     \<and> (let result = fst (fst (processQuizWithSettingsS st quizRef settings g));
            st' = snd (fst (processQuizWithSettingsS st quizRef settings g));
            original = readQuiz st quizRef;
            pq = readQuiz st' result;
            N = length (questions original)
        in storeExtends st st' \<and> readQuiz st' quizRef = original
         \<and> length (quizObjects st) \<le> result
         \<and> pq = fst (processQuizWithSettings original settings g)
         \<and> quiz pq = quiz original \<and> topic pq = topic original \<and> length (questions pq) = N
         \<and> map questionNumber (questions pq) = [1..int N]
         \<and> (\<forall>k < N. sameContent (questions pq ! k) (questions original ! (p ! k))
                    \<and> questionNumber (questions pq ! k) = int k + 1
                    \<and> (\<not> shuffleAnswers settings \<longrightarrow>
                         options (questions pq ! k) = options (questions original ! (p ! k)))))"
proof -
  let ?res = "processQuizWithSettingsS st quizRef settings g"
  let ?orig = "readQuiz st quizRef"
  from processQuizWithSettingsS_refines [OF assms(1-3), of settings]
  have ext: "storeExtends st (snd (fst ?res))"
    and fresh: "length (quizObjects st) \<le> fst (fst ?res)"
    and rd: "(readQuiz (snd (fst ?res)) (fst (fst ?res)), snd ?res)
               = processQuizWithSettings ?orig settings g"
    by blast+
  from rd have pq: "readQuiz (snd (fst ?res)) (fst (fst ?res))
      = fst (processQuizWithSettings ?orig settings g)"
    by (metis fst_conv)
  have same: "readQuiz (snd (fst ?res)) quizRef = ?orig"
    using ext assms(1,2) by (rule readQuiz_extends)
  from processQuizWithSettings_permutation [OF assms(3,4), of ?orig]
  obtain p where p: "mset p = mset [0..<length (questions ?orig)]"
    and rest: "let pq = fst (processQuizWithSettings ?orig settings g);
                   N = length (questions ?orig)
        in quiz pq = quiz ?orig \<and> topic pq = topic ?orig \<and> length (questions pq) = N
         \<and> map questionNumber (questions pq) = [1..int N]
         \<and> (\<forall>k < N. sameContent (questions pq ! k) (questions ?orig ! (p ! k))
                    \<and> questionNumber (questions pq ! k) = int k + 1
                    \<and> (\<not> shuffleAnswers settings \<longrightarrow>
                         options (questions pq ! k) = options (questions ?orig ! (p ! k))))"
    by blast
  show ?thesis
    apply (rule exI [of _ p])
    unfolding Let_def pq
    using p rest [unfolded Let_def] ext same fresh
    apply blast
    done
qed

theorem processQuizWithSettingsS_shuffleQuestions_witness:
  "wfStore demoStore \<and> validRandom demoRandom \<and> shuffleQuestions shuffleBoth
   \<and> readQuiz (snd (fst (processQuizWithSettingsS demoStore 0 shuffleBoth demoRandom))) 0
       = demoQuizB
   \<and> map questionNumber
        (questions (readQuiz (snd (fst (processQuizWithSettingsS demoStore 0 shuffleBoth demoRandom)))
                      (fst (fst (processQuizWithSettingsS demoStore 0 shuffleBoth demoRandom)))))
       = [1, 2, 3]
   \<and> map questionText
        (questions (readQuiz (snd (fst (processQuizWithSettingsS demoStore 0 shuffleBoth demoRandom)))
                      (fst (fst (processQuizWithSettingsS demoStore 0 shuffleBoth demoRandom)))))
       = [''b3'', ''b2'', ''b1'']"
proof -
  let ?res = "processQuizWithSettingsS demoStore 0 shuffleBoth demoRandom"
  from processQuizWithSettingsS_shuffleQuestions
         [OF demoStore_wf validRandom_demoRandom shuffleBoth_questions]
  have a: "readQuiz (snd (fst ?res)) 0 = readQuiz demoStore 0"
    and b: "readQuiz (snd (fst ?res)) (fst (fst ?res))
              = fst (processQuizWithSettings (readQuiz demoStore 0) shuffleBoth demoRandom)"
    and c: "map questionNumber (questions (readQuiz (snd (fst ?res)) (fst (fst ?res))))
              = [1..int (length (questions (readQuiz demoStore 0)))]"
    unfolding Let_def by blast+
  have n: "[1..int (length (questions demoQuizB))] = [1, 2, 3]" by code_simp
  from a b c show ?thesis
    unfolding demoStore_quiz n
    using demoStore_wf(1) validRandom_demoRandom shuffleBoth_questions demo_shuffled(1)
    by simp
qed

section \<open>Challenge mode: the restart\<close>

text \<open>
  Every action leaves a valid random source valid: only \<open>startQuiz\<close> and \<open>restartQuiz\<close>
  draw from it, through \<open>processQuizWithSettings\<close>.
\<close>

lemma validRandom_processQuizWithSettings:
  assumes "validRandom g"
  shows "validRandom (snd (processQuizWithSettings qz settings g))"
  using assms by (rule processQuizWithSettings_positions [of g qz settings])

lemma randomSource_handleAnswerSelect [simp]:
  "randomSource (handleAnswerSelect s answer) = randomSource s"
  by (cases "processedQuiz s") (simp_all add: handleAnswerSelect_def Let_def)

lemma randomSource_navigateToQuestion [simp]:
  "randomSource (navigateToQuestion s index) = randomSource s"
  by (cases "processedQuiz s") (simp_all add: navigateToQuestion_def)

lemma randomSource_submitQuiz:
  "submitQuiz s now = Inr s' \<Longrightarrow> randomSource s' = randomSource s"
  by (cases "processedQuiz s") (auto simp: submitQuiz_def split: sum.splits)

lemma validRandom_restartQuiz:
  "validRandom (randomSource s) \<Longrightarrow> validRandom (randomSource (restartQuiz s now))"
  by (cases "selectedQuiz s")
     (simp_all add: restartQuiz_def case_prod_beta validRandom_processQuizWithSettings)

lemma validRandom_startQuiz:
  "validRandom (randomSource s) \<Longrightarrow> validRandom (randomSource (startQuiz s now))"
  by (cases "selectedQuiz s")
     (simp_all add: startQuiz_def case_prod_beta validRandom_processQuizWithSettings)

lemma validRandom_step:
  assumes "validRandom (randomSource s)"
  shows "validRandom (randomSource (step s e))"
proof (cases e)
  case (SelectQuiz qz)
  with assms show ?thesis by (simp add: selectQuiz_def)
next
  case (ToggleSetting k)
  with assms show ?thesis by simp
next
  case (StartQuiz now)
  with assms show ?thesis by (simp add: validRandom_startQuiz)
next
  case (AnswerSelect answer now)
  with assms show ?thesis
    by (cases "quizViewQuestion s")
       (simp_all add: QuizView_handleAnswerSelect_def validRandom_restartQuiz)
next
  case (NavigateToQuestion index)
  with assms show ?thesis by (cases "quizViewQuestion s") simp_all
next
  case (SubmitQuiz now)
  show ?thesis
  proof (cases "quizViewQuestion s")
    case None
    with assms SubmitQuiz show ?thesis by simp
  next
    case (Some cq)
    show ?thesis
    proof (cases "submitQuiz s now")
      case (Inl e)
      with assms SubmitQuiz Some show ?thesis by simp
    next
      case (Inr s')
      with assms SubmitQuiz Some randomSource_submitQuiz [OF Inr] show ?thesis by simp
    qed
  qed
next
  case GoHome
  with assms show ?thesis by (simp add: resetQuiz_def)
next
  case (Restart now)
  with assms show ?thesis by (simp add: validRandom_restartQuiz)
qed

lemma validRandom_run:
  "validRandom (randomSource s) \<Longrightarrow> validRandom (randomSource (run s events))"
  unfolding run_def by (induction events arbitrary: s) (simp_all add: validRandom_step)

lemma validRandom_reachable:
  "validRandom g \<Longrightarrow> validRandom (randomSource (run (initialState g) events))"
  by (rule validRandom_run) (simp add: initialState_def)

text \<open>
  C6. In challenge mode, in every reachable state in which the quiz view is mounted,
  selecting an answer other than the current question's correct answer records nothing:
  the state becomes the old one with the processed quiz recomputed from the selected quiz
  under the current settings with fresh random values, current index 0, no answers, the
  start time set to the clock's reading, no end time, and the quiz view shown. The
  recomputed quiz has the name and topic of the selected quiz; with both shuffles off it
  is the selected quiz. When the random source of the session is valid, so is the one
  left behind, and the new questions are the selected quiz's questions read through a
  permutation \<open>p\<close> of the positions: same text, correct answer and image, the same options
  as a multiset (the very same list when answers are not shuffled), numbered 1..N when
  questions are shuffled, and in the original order with the original numbers otherwise.
\<close>

theorem challenge_mode_wrong_answer_restarts:
  assumes "s = run (initialState g) events" and "quizViewQuestion s = Some cq"
    and "restartOnIncorrect (quizSettings s)" and "answer \<noteq> correctAnswer cq"
  shows "\<exists>qz pq g' p.
           selectedQuiz s = Some qz
         \<and> processQuizWithSettings qz (quizSettings s) (randomSource s) = (pq, g')
         \<and> step s (AnswerSelect answer now)
             = s\<lparr>processedQuiz := Some pq, currentQuestionIndex := 0, userAnswers := [],
                  startTime := Some now, endTime := None, quizSubmitted := False,
                  currentView := ViewQuiz, randomSource := g'\<rparr>
         \<and> quiz pq = quiz qz \<and> topic pq = topic qz
         \<and> (\<not> shuffleQuestions (quizSettings s) \<and> \<not> shuffleAnswers (quizSettings s)
              \<longrightarrow> pq = qz \<and> g' = randomSource s)
         \<and> (validRandom g \<longrightarrow>
               validRandom g'
             \<and> length (questions pq) = length (questions qz)
             \<and> mset p = mset [0..<length (questions qz)]
             \<and> (\<not> shuffleQuestions (quizSettings s) \<longrightarrow> p = [0..<length (questions qz)])
             \<and> (shuffleQuestions (quizSettings s) \<longrightarrow>
                   map questionNumber (questions pq) = [1..int (length (questions qz))])
             \<and> (\<forall>k < length (questions qz).
                   sameContent (questions pq ! k) (questions qz ! (p ! k))
                 \<and> questionNumber (questions pq ! k)
                     = (if shuffleQuestions (quizSettings s) then int k + 1
                        else questionNumber (questions qz ! (p ! k)))
                 \<and> (\<not> shuffleAnswers (quizSettings s) \<longrightarrow>
                      options (questions pq ! k) = options (questions qz ! (p ! k)))))"
proof -
  have inv: "sessionInv s" unfolding assms(1) by (rule sessionInv_reachable)
  from inv assms(2) obtain opq where "selectedQuiz s \<noteq> None"
    by (rule sessionInv_quizView)
  then obtain qz where qz: "selectedQuiz s = Some qz" by blast
  let ?st = "quizSettings s"
  let ?r = "processQuizWithSettings qz ?st (randomSource s)"
  let ?N = "length (questions qz)"
  have r: "?r = (fst ?r, snd ?r)" by simp
  have "step s (AnswerSelect answer now) = restartQuiz s now"
    using assms(2-4) by (simp add: QuizView_handleAnswerSelect_def)
  with qz have st: "step s (AnswerSelect answer now)
             = s\<lparr>processedQuiz := Some (fst ?r), currentQuestionIndex := 0, userAnswers := [],
                  startTime := Some now, endTime := None, quizSubmitted := False,
                  currentView := ViewQuiz, randomSource := snd ?r\<rparr>"
    by (simp add: restartQuiz_def case_prod_beta)
  have nm: "quiz (fst ?r) = quiz qz" "topic (fst ?r) = topic qz"
    by (rule processQuizWithSettings_names)+
  have off: "\<not> shuffleQuestions ?st \<and> \<not> shuffleAnswers ?st
              \<longrightarrow> fst ?r = qz \<and> snd ?r = randomSource s"
    by (simp add: processQuizWithSettings_def)
  have "\<exists>p. validRandom g \<longrightarrow>
               validRandom (snd ?r)
             \<and> length (questions (fst ?r)) = ?N
             \<and> mset p = mset [0..<?N]
             \<and> (\<not> shuffleQuestions ?st \<longrightarrow> p = [0..<?N])
             \<and> (shuffleQuestions ?st \<longrightarrow> map questionNumber (questions (fst ?r)) = [1..int ?N])
             \<and> (\<forall>k < ?N.
                   sameContent (questions (fst ?r) ! k) (questions qz ! (p ! k))
                 \<and> questionNumber (questions (fst ?r) ! k)
                     = (if shuffleQuestions ?st then int k + 1
                        else questionNumber (questions qz ! (p ! k)))
                 \<and> (\<not> shuffleAnswers ?st \<longrightarrow>
                      options (questions (fst ?r) ! k) = options (questions qz ! (p ! k))))"
  proof (cases "validRandom g")
    case False
    then show ?thesis by blast
  next
    case True
    then have v: "validRandom (randomSource s)"
      unfolding assms(1) by (rule validRandom_reachable)
    from v obtain p where mp: "mset p = mset [0..<?N]"
      and id: "\<not> shuffleQuestions ?st \<Longrightarrow> p = [0..<?N]"
      and len: "length (questions (fst ?r)) = ?N"
      and nth: "\<And>k. k < ?N \<Longrightarrow>
         sameContent (questions (fst ?r) ! k) (questions qz ! (p ! k))
       \<and> questionNumber (questions (fst ?r) ! k)
           = (if shuffleQuestions ?st then int k + 1
              else questionNumber (questions qz ! (p ! k)))
       \<and> (\<not> shuffleAnswers ?st \<longrightarrow>
            options (questions (fst ?r) ! k) = options (questions qz ! (p ! k)))"
      and v': "validRandom (snd ?r)"
      by (rule processQuizWithSettings_positions [of "randomSource s" qz ?st]) blast
    have num: "map questionNumber (questions (fst ?r)) = [1..int ?N]"
      if sq: "shuffleQuestions ?st"
    proof (rule nth_equalityI)
      show "length (map questionNumber (questions (fst ?r))) = length [1..int ?N]"
        by (simp add: len)
      fix k assume "k < length (map questionNumber (questions (fst ?r)))"
      then have k: "k < ?N" by (simp add: len)
      with nth [OF k] sq show "map questionNumber (questions (fst ?r)) ! k = [1..int ?N] ! k"
        by (simp add: len)
    qed
    from mp id len nth v' num show ?thesis by blast
  qed
  then obtain p where perm: "validRandom g \<longrightarrow>
               validRandom (snd ?r)
             \<and> length (questions (fst ?r)) = ?N
             \<and> mset p = mset [0..<?N]
             \<and> (\<not> shuffleQuestions ?st \<longrightarrow> p = [0..<?N])
             \<and> (shuffleQuestions ?st \<longrightarrow> map questionNumber (questions (fst ?r)) = [1..int ?N])
             \<and> (\<forall>k < ?N.
                   sameContent (questions (fst ?r) ! k) (questions qz ! (p ! k))
                 \<and> questionNumber (questions (fst ?r) ! k)
                     = (if shuffleQuestions ?st then int k + 1
                        else questionNumber (questions qz ! (p ! k)))
                 \<and> (\<not> shuffleAnswers ?st \<longrightarrow>
                      options (questions (fst ?r) ! k) = options (questions qz ! (p ! k))))"
    by blast
  show ?thesis
    apply (rule exI [of _ qz], rule exI [of _ "fst ?r"], rule exI [of _ "snd ?r"],
           rule exI [of _ p])
    apply (intro conjI)
         apply (rule qz)
        apply (rule r)
       apply (rule st)
      apply (rule nm(1))
     apply (rule nm(2))
    apply (rule off)
    apply (rule perm)
    done
qed

text \<open>
  A session with both shuffles on: the restart draws a new order of the questions and of
  the options.
\<close>

lemma validRandom_demoRandom2: "validRandom demoRandom2"
  by (simp add: validRandom_def demoRandom2_def)

lemma shuffledChallengeSession_eval:
  "quizViewQuestion shuffledChallengeSession
     = Some \<lparr>questionNumber = 2, questionText = ''b2'', options = [''maybe'', ''no'', ''yes''],
             correctAnswer = ''yes'', image_opt = None\<rparr>"
  "quizSettings shuffledChallengeSession
     = \<lparr>shuffleQuestions = True, shuffleAnswers = True, restartOnIncorrect = True\<rparr>"
  "selectedQuiz shuffledChallengeSession = Some demoQuizB"
  "userAnswers shuffledChallengeSession
     = [\<lparr>questionIndex = 0, selectedAnswer = ''yes'', isCorrect = None\<rparr>]"
  "map_option (\<lambda>q. map questionText (questions q)) (processedQuiz shuffledChallengeSession)
     = Some [''b3'', ''b2'', ''b1'']"
  "map_option (\<lambda>q. (map questionText (questions q), map options (questions q)))
       (processedQuiz (step shuffledChallengeSession (AnswerSelect ''no'' 4000)))
     = Some ([''b1'', ''b3'', ''b2''],
             [[''yes'', ''maybe'', ''no''], [''yes'', ''maybe'', ''no''],
              [''yes'', ''maybe'', ''no'']])"
  by code_simp+

theorem challenge_mode_wrong_answer_restarts_witness:
  "validRandom demoRandom2
   \<and> userAnswers shuffledChallengeSession
       = [\<lparr>questionIndex = 0, selectedAnswer = ''yes'', isCorrect = None\<rparr>]
   \<and> map_option (\<lambda>q. map questionText (questions q)) (processedQuiz shuffledChallengeSession)
       = Some [''b3'', ''b2'', ''b1'']
   \<and> currentQuestionIndex (step shuffledChallengeSession (AnswerSelect ''no'' 4000)) = 0
   \<and> userAnswers (step shuffledChallengeSession (AnswerSelect ''no'' 4000)) = []
   \<and> startTime (step shuffledChallengeSession (AnswerSelect ''no'' 4000)) = Some 4000
   \<and> endTime (step shuffledChallengeSession (AnswerSelect ''no'' 4000)) = None
   \<and> currentView (step shuffledChallengeSession (AnswerSelect ''no'' 4000)) = ViewQuiz
   \<and> map_option (\<lambda>q. map questionNumber (questions q))
         (processedQuiz (step shuffledChallengeSession (AnswerSelect ''no'' 4000)))
       = Some [1, 2, 3]
   \<and> map_option (\<lambda>q. (map questionText (questions q), map options (questions q)))
         (processedQuiz (step shuffledChallengeSession (AnswerSelect ''no'' 4000)))
       = Some ([''b1'', ''b3'', ''b2''],
               [[''yes'', ''maybe'', ''no''], [''yes'', ''maybe'', ''no''],
                [''yes'', ''maybe'', ''no'']])"
proof -
  let ?s = shuffledChallengeSession
  let ?s' = "step shuffledChallengeSession (AnswerSelect ''no'' 4000)"
  have ne: "''no'' \<noteq> correctAnswer \<lparr>questionNumber = 2, questionText = ''b2'',
      options = [''maybe'', ''no'', ''yes''], correctAnswer = ''yes'', image_opt = None\<rparr>"
    by simp
  have ch: "restartOnIncorrect (quizSettings ?s)" and sq: "shuffleQuestions (quizSettings ?s)"
    by (simp_all add: shuffledChallengeSession_eval(2))
  from challenge_mode_wrong_answer_restarts
         [OF shuffledChallengeSession_def shuffledChallengeSession_eval(1) ch ne, of 4000]
  obtain qz pq g' p where qz: "selectedQuiz ?s = Some qz"
    and st: "?s' = ?s\<lparr>processedQuiz := Some pq, currentQuestionIndex := 0, userAnswers := [],
                  startTime := Some 4000, endTime := None, quizSubmitted := False,
                  currentView := ViewQuiz, randomSource := g'\<rparr>"
    and num: "validRandom demoRandom2 \<longrightarrow>
        (shuffleQuestions (quizSettings ?s) \<longrightarrow>
           map questionNumber (questions pq) = [1..int (length (questions qz))])"
    by blast
  from qz have qz': "qz = demoQuizB" by (simp add: shuffledChallengeSession_eval(3))
  have n: "[1..int (length (questions demoQuizB))] = [1, 2, 3]" by code_simp
  from num validRandom_demoRandom2 sq have nums: "map questionNumber (questions pq) = [1, 2, 3]"
    unfolding qz' n by blast
  have f: "currentQuestionIndex ?s' = 0" "userAnswers ?s' = []" "startTime ?s' = Some 4000"
    "endTime ?s' = None" "currentView ?s' = ViewQuiz" "processedQuiz ?s' = Some pq"
    by (subst st, simp)+
  from f(6) nums have pn: "map_option (\<lambda>q. map questionNumber (questions q)) (processedQuiz ?s')
       = Some [1, 2, 3]" by simp
  show ?thesis
    using validRandom_demoRandom2 shuffledChallengeSession_eval(4,5,6) f(1-5) pn
    by (intro conjI)
qed

end
